theory Spec2Isabelle
  imports Complex_Main "HOL-Library.DAList"
begin

section \<open>Python values, exceptions and effects\<close>

text \<open>
  A \<open>datetime\<close> is a whole number of microseconds since the epoch (UTC), which is the
  resolution of Python's \<open>datetime\<close>. A timestamp attribute (\<open>created_utc\<close>, a float
  number of seconds in the source) is held as the number of microseconds that
  \<open>datetime.fromtimestamp\<close> reads from it.
\<close>

type_synonym datetime = int

text \<open>The exception classes the source distinguishes, and the others it can meet.\<close>

datatype exn = NotFound | Forbidden | AttributeError | TypeError | ValueError | KeyError
  | OtherException

text \<open>
  An attribute of a PRAW object is missing (reading it raises \<open>AttributeError\<close>,
  \<open>hasattr\<close> is false), holds \<open>None\<close>, or holds a value.
\<close>

datatype 'a pyattr = NoAttr | PyNone | Val 'a

definition attr :: "'a pyattr \<Rightarrow> exn + 'a option" where
  "attr x = (case x of NoAttr \<Rightarrow> Inl AttributeError | PyNone \<Rightarrow> Inr None | Val v \<Rightarrow> Inr (Some v))"

definition hasattr :: "'a pyattr \<Rightarrow> bool" where
  "hasattr x = (case x of NoAttr \<Rightarrow> False | PyNone \<Rightarrow> True | Val v \<Rightarrow> True)"

definition getattr_default :: "'a pyattr \<Rightarrow> 'a option" where
  "getattr_default x = (case x of NoAttr \<Rightarrow> None | PyNone \<Rightarrow> None | Val v \<Rightarrow> Some v)"

text \<open>Sequencing of computations that may raise: the first exception wins.\<close>

definition bind_exn :: "exn + 'a \<Rightarrow> ('a \<Rightarrow> exn + 'b) \<Rightarrow> exn + 'b" where
  "bind_exn m f = (case m of Inl e \<Rightarrow> Inl e | Inr v \<Rightarrow> f v)"

subsection \<open>Time\<close>

record timedelta =
  days :: int
  seconds :: int
  microseconds :: int

text \<open>
  The difference of two datetimes, normalised as Python's \<open>timedelta\<close> is:
  \<open>0 \<le> seconds < 86400\<close>, \<open>0 \<le> microseconds < 1000000\<close>, the sign in \<open>days\<close>
  (Python's \<open>divmod\<close> rounds to minus infinity, as \<open>div\<close> and \<open>mod\<close> on \<open>int\<close> do).
\<close>

definition datetime_sub :: "datetime \<Rightarrow> datetime \<Rightarrow> timedelta" where
  "datetime_sub a b =
     (let us = a - b in
      \<lparr> days = us div 86400000000,
        seconds = (us mod 86400000000) div 1000000,
        microseconds = us mod 1000000 \<rparr>)"

text \<open>
  \<open>timedelta.total_seconds()\<close>: the exact quotient; Python returns the double nearest
  to it.
\<close>

definition total_seconds :: "timedelta \<Rightarrow> rat" where
  "total_seconds td =
     of_int ((days td * 86400 + seconds td) * 10 ^ 6 + microseconds td) / of_int (10 ^ 6)"

text \<open>
  \<open>datetime.fromtimestamp(t, tz=timezone.utc)\<close> raises outside the years 1 to 9999
  (\<open>ValueError: year out of range\<close>).
\<close>

definition fromtimestamp :: "int \<Rightarrow> exn + datetime" where
  "fromtimestamp t =
     (if - 62135596800000000 \<le> t \<and> t \<le> 253402300799999999 then Inr t else Inl ValueError)"

subsection \<open>Observable effects\<close>

datatype message =
    UserUnavailable string exn
  | UserUnexpected string exn
  | PostError string exn
  | Pass1Start string
  | Processed nat
  | Collected nat string
  | FetchingStatus nat
  | BatchError nat nat exn
  | FoundStatus nat

text \<open>
  \<open>Fetch u\<close> is the request for the profile of user \<open>u\<close>, which PRAW issues at the
  first attribute read of a lazy \<open>Redditor\<close>; \<open>Info ids\<close> is one bulk-info request;
  \<open>Listing s n\<close> is the request for the newest posts of a subreddit.
\<close>

datatype event = Fetch string | Info "string list" | Listing string nat | Sleep rat
  | Print message

text \<open>
  The environment of a run: the clock (the \<open>n\<close>-th call of \<open>datetime.now\<close> returns
  \<open>clock n\<close>), the number of clock reads so far, and the effects so far in order.
\<close>

record env =
  clock :: "nat \<Rightarrow> datetime"
  ticks :: nat
  trace :: "event list"

definition emit :: "event \<Rightarrow> 'a env_scheme \<Rightarrow> 'a env_scheme" where
  "emit ev w = w\<lparr>trace := trace w @ [ev]\<rparr>"

definition print :: "message \<Rightarrow> 'a env_scheme \<Rightarrow> 'a env_scheme" where
  "print m w = emit (Print m) w"

definition sleep :: "rat \<Rightarrow> 'a env_scheme \<Rightarrow> 'a env_scheme" where
  "sleep d w = emit (Sleep d) w"

definition now :: "'a env_scheme \<Rightarrow> datetime \<times> 'a env_scheme" where
  "now w = (clock w (ticks w), w\<lparr>ticks := Suc (ticks w)\<rparr>)"

section \<open>Pass 1: \<open>collect_data.py\<close>\<close>

subsection \<open>The objects of the Reddit client\<close>

text \<open>
  A \<open>Redditor\<close>: \<open>str(author)\<close> is its name, known without a request. Its other
  attributes are loaded by one request at the first read; \<open>redditor_fetch\<close> is the
  exception that request raises, if any.
\<close>

record redditor =
  redditor_name :: string
  redditor_fetch :: "exn option"
  redditor_created_utc :: "int pyattr"
  redditor_link_karma :: "int pyattr"
  redditor_comment_karma :: "int pyattr"
  redditor_is_verified :: "bool pyattr"

text \<open>
  A \<open>Submission\<close> as a listing or the bulk lookup yields it. \<open>id\<close> and \<open>fullname\<close>
  (a property computed from \<open>id\<close>) are strings on every submission.
\<close>

record submission =
  submission_id :: string
  submission_fullname :: string
  submission_author :: "redditor pyattr"
  submission_selftext :: "string pyattr"
  submission_created_utc :: "int pyattr"
  submission_subreddit :: "string pyattr"
  submission_title :: "string pyattr"
  submission_domain :: "string pyattr"
  submission_score :: "int pyattr"
  submission_num_comments :: "int pyattr"
  submission_upvote_ratio :: "rat pyattr"
  submission_link_flair_text :: "string pyattr"
  submission_removed_by_category :: "string pyattr"
  submission_is_robot_indexable :: "bool pyattr"
  submission_locked :: "bool pyattr"
  submission_archived :: "bool pyattr"

subsection \<open>\<open>collect_user_info\<close>\<close>

record snapshot =
  username :: string
  account_age_days :: "int option"
  link_karma :: "int option"
  comment_karma :: "int option"
  total_karma :: "int option"
  is_verified :: "bool option"
  author_unavailable :: bool

record world = env +
  user_info_cache :: "string \<rightharpoonup> snapshot"

text \<open>The dictionary literal of lines 27, 43, 78 and 90, for a given \<open>username\<close> entry.\<close>

definition unavailable :: "string \<Rightarrow> snapshot" where
  "unavailable u =
     \<lparr> username = u, account_age_days = None, link_karma = None, comment_karma = None,
       total_karma = None, is_verified = None, author_unavailable = True \<rparr>"

text \<open>Python's \<open>+\<close> on two attribute values: \<open>None\<close> operands raise \<open>TypeError\<close>.\<close>

definition py_add :: "int option \<Rightarrow> int option \<Rightarrow> exn + int" where
  "py_add a b = (case (a, b) of (Some x, Some y) \<Rightarrow> Inr (x + y) | _ \<Rightarrow> Inl TypeError)"

text \<open>
  Lines 61 to 69: the dictionary of a fetched author, its entries evaluated in order.
\<close>

definition user_data :: "redditor \<Rightarrow> string \<Rightarrow> int \<Rightarrow> exn + snapshot" where
  "user_data a name age =
     bind_exn (attr (redditor_link_karma a)) (\<lambda>lk.
     bind_exn (attr (redditor_comment_karma a)) (\<lambda>ck.
     bind_exn (py_add lk ck) (\<lambda>total.
       Inr \<lparr> username = name, account_age_days = Some age, link_karma = lk,
             comment_karma = ck, total_karma = Some total,
             is_verified = (if hasattr (redditor_is_verified a)
                            then getattr_default (redditor_is_verified a) else Some False),
             author_unavailable = False \<rparr>)))"

text \<open>
  Lines 56 to 74, reached on a cache miss: the first attribute read issues the request;
  then the account age, the dictionary, the pacing delay and the cache entry.
\<close>

definition fresh_lookup :: "redditor \<Rightarrow> string \<Rightarrow> world \<Rightarrow> (exn + snapshot) \<times> world" where
  "fresh_lookup a name w =
     (let w1 = emit (Fetch name) w in
      case redditor_fetch a of
        Some e \<Rightarrow> (Inl e, w1)
      | None \<Rightarrow>
          (case getattr_default (redditor_created_utc a) of
             None \<Rightarrow> (Inl AttributeError, w1)
           | Some t \<Rightarrow>
               (let (now_utc, w2) = now w1 in
                case fromtimestamp t of
                  Inl e \<Rightarrow> (Inl e, w2)
                | Inr created \<Rightarrow>
                    (case user_data a name (days (datetime_sub now_utc created)) of
                       Inl e \<Rightarrow> (Inl e, w2)
                     | Inr s \<Rightarrow>
                         (let w3 = sleep (6 / 10) w2;
                              w4 = w3\<lparr>user_info_cache := (user_info_cache w3)(name \<mapsto> s)\<rparr>
                          in (Inr s, w4))))))"

text \<open>\<open>return user_info_cache[username]\<close>.\<close>

definition cache_get :: "world \<Rightarrow> string \<Rightarrow> exn + snapshot" where
  "cache_get w name = (case user_info_cache w name of None \<Rightarrow> Inl KeyError | Some s \<Rightarrow> Inr s)"

text \<open>The two handlers of lines 76 to 99.\<close>

definition handle_lookup_error :: "string \<Rightarrow> exn \<Rightarrow> world \<Rightarrow> (exn + snapshot) \<times> world" where
  "handle_lookup_error name e w =
     (if e = NotFound \<or> e = Forbidden \<or> e = AttributeError then
        (let w1 = print (UserUnavailable name e) w;
             w2 = w1\<lparr>user_info_cache := (user_info_cache w1)
                       (name \<mapsto> unavailable (if name \<noteq> [] then name else ''[error]''))\<rparr>
         in (cache_get w2 name, w2))
      else
        (let w1 = print (UserUnexpected name e) w;
             w2 = w1\<lparr>user_info_cache := (user_info_cache w1)(name \<mapsto> unavailable ''[error]'')\<rparr>
         in (cache_get w2 name, w2)))"

definition collect_user_info :: "redditor option \<Rightarrow> world \<Rightarrow> (exn + snapshot) \<times> world" where
  "collect_user_info author w =
     (case author of
        None \<Rightarrow> (Inr (unavailable ''[deleted]''), w)
      | Some a \<Rightarrow>
          (let name = redditor_name a in
           if name = ''[deleted]'' then (Inr (unavailable ''[deleted]''), w)
           else if user_info_cache w name \<noteq> None then (cache_get w name, w)
           else
             (case fresh_lookup a name w of
                (Inr s, w1) \<Rightarrow> (Inr s, w1)
              | (Inl e, w1) \<Rightarrow> handle_lookup_error name e w1)))"

text \<open>A run of lookups, one after the other on the same cache; the results in order.\<close>

fun lookups :: "redditor option list \<Rightarrow> world \<Rightarrow> (exn + snapshot) list \<times> world" where
  "lookups [] w = ([], w)"
| "lookups (a # as) w =
     (let (r, w1) = collect_user_info a w;
          (rs, w2) = lookups as w1
      in (r # rs, w2))"

definition fetches :: "event list \<Rightarrow> string list" where
  "fetches evs = concat (map (\<lambda>ev. case ev of Fetch u \<Rightarrow> [u] | _ \<Rightarrow> []) evs)"

definition sleeps :: "event list \<Rightarrow> rat list" where
  "sleeps evs = concat (map (\<lambda>ev. case ev of Sleep d \<Rightarrow> [d] | _ \<Rightarrow> []) evs)"

text \<open>The invariant of the data model on one snapshot.\<close>

definition consistent :: "snapshot \<Rightarrow> bool" where
  "consistent s =
     (author_unavailable s \<longleftrightarrow>
        account_age_days s = None \<and> link_karma s = None \<and> comment_karma s = None
        \<and> total_karma s = None)"

subsection \<open>\<open>collect_post_data\<close> and \<open>collect_initial_cohort\<close>\<close>

text \<open>
  The flat record of lines 109 to 132. Its \<open>author_unavailable\<close> entry is the field
  \<open>post_author_unavailable\<close> here (the snapshot has a field of the same name).
\<close>

record post_record =
  post_fullname :: string
  created_utc :: datetime
  captured_at_utc :: datetime
  post_age_seconds_at_capture :: rat
  subreddit :: string
  title :: "string option"
  selftext :: string
  domain :: "string option"
  initial_score :: "int option"
  initial_num_comments :: "int option"
  initial_upvote_ratio :: "rat option"
  link_flair_text :: "string option"
  author_username :: string
  author_account_age_days :: "int option"
  author_total_karma :: "int option"
  author_link_karma :: "int option"
  author_comment_karma :: "int option"
  author_is_verified :: "bool option"
  post_author_unavailable :: bool

text \<open>\<open>datetime.fromtimestamp(post.created_utc, ...)\<close>: \<open>None\<close> is a \<open>TypeError\<close>.\<close>

definition fromtimestamp_value :: "int option \<Rightarrow> exn + datetime" where
  "fromtimestamp_value v = (case v of None \<Rightarrow> Inl TypeError | Some t \<Rightarrow> fromtimestamp t)"

text \<open>\<open>str(x)\<close> of an attribute value: \<open>str(None)\<close> is the string \<open>None\<close>.\<close>

definition py_str :: "string option \<Rightarrow> string" where
  "py_str v = (case v of None \<Rightarrow> ''None'' | Some s \<Rightarrow> s)"

text \<open>\<open>body[:500] if body else ''\<close>.\<close>

definition truncate_body :: "string option \<Rightarrow> string" where
  "truncate_body body = (case body of None \<Rightarrow> [] | Some b \<Rightarrow> if b \<noteq> [] then take 500 b else [])"

text \<open>The dictionary of lines 109 to 132, its entries evaluated in order.\<close>

definition post_dict ::
  "submission \<Rightarrow> snapshot \<Rightarrow> string option \<Rightarrow> datetime \<Rightarrow> datetime \<Rightarrow> exn + post_record" where
  "post_dict post author_info body created_dt captured =
     bind_exn (attr (submission_subreddit post)) (\<lambda>sub.
     bind_exn (attr (submission_title post)) (\<lambda>ti.
     bind_exn (attr (submission_domain post)) (\<lambda>dom.
     bind_exn (attr (submission_score post)) (\<lambda>sc.
     bind_exn (attr (submission_num_comments post)) (\<lambda>nc.
     bind_exn (attr (submission_upvote_ratio post)) (\<lambda>ur.
     bind_exn (attr (submission_link_flair_text post)) (\<lambda>fl.
       Inr \<lparr> post_fullname = submission_fullname post,
             created_utc = created_dt,
             captured_at_utc = captured,
             post_age_seconds_at_capture = total_seconds (datetime_sub captured created_dt),
             subreddit = py_str sub,
             title = ti,
             selftext = truncate_body body,
             domain = dom,
             initial_score = sc,
             initial_num_comments = nc,
             initial_upvote_ratio = ur,
             link_flair_text = fl,
             author_username = username author_info,
             author_account_age_days = account_age_days author_info,
             author_total_karma = total_karma author_info,
             author_link_karma = link_karma author_info,
             author_comment_karma = comment_karma author_info,
             author_is_verified = is_verified author_info,
             post_author_unavailable = author_unavailable author_info \<rparr>)))))))"

text \<open>The body of the \<open>try\<close> of \<open>collect_post_data\<close>, lines 104 to 132.\<close>

definition try_post_data :: "submission \<Rightarrow> world \<Rightarrow> (exn + post_record) \<times> world" where
  "try_post_data post w =
     (case attr (submission_author post) of
        Inl e \<Rightarrow> (Inl e, w)
      | Inr author \<Rightarrow>
          (case collect_user_info author w of
             (Inl e, w1) \<Rightarrow> (Inl e, w1)
           | (Inr author_info, w1) \<Rightarrow>
               (let body = getattr_default (submission_selftext post) in
                case bind_exn (attr (submission_created_utc post)) fromtimestamp_value of
                  Inl e \<Rightarrow> (Inl e, w1)
                | Inr created_dt \<Rightarrow>
                    (let (captured, w2) = now w1
                     in (post_dict post author_info body created_dt captured, w2)))))"

text \<open>\<open>except Exception\<close>: the post is logged by its \<open>id\<close> and \<open>None\<close> is returned.\<close>

definition collect_post_data :: "submission \<Rightarrow> world \<Rightarrow> post_record option \<times> world" where
  "collect_post_data post w =
     (case try_post_data post w of
        (Inr d, w1) \<Rightarrow> (Some d, w1)
      | (Inl e, w1) \<Rightarrow> (None, print (PostError (submission_id post) e) w1))"

text \<open>
  The loop of lines 151 to 158 from the \<open>i\<close>-th post on. \<open>if post_data\<close> holds for every
  dictionary \<open>collect_post_data\<close> returns (it has entries) and fails for \<open>None\<close>.
\<close>

fun cohort_loop ::
  "nat \<Rightarrow> submission list \<Rightarrow> post_record list \<Rightarrow> string list \<Rightarrow> world
     \<Rightarrow> (post_record list \<times> string list) \<times> world" where
  "cohort_loop i [] posts_data post_fullnames w = ((posts_data, post_fullnames), w)"
| "cohort_loop i (post # posts) posts_data post_fullnames w =
     (let w1 = (if i mod 100 = 0 then print (Processed i) w else w);
          (post_data, w2) = collect_post_data post w1
      in case post_data of
           Some d \<Rightarrow>
             cohort_loop (Suc i) posts (posts_data @ [d]) (post_fullnames @ [post_fullname d]) w2
         | None \<Rightarrow> cohort_loop (Suc i) posts posts_data post_fullnames w2)"

text \<open>
  \<open>subreddit_new name limit\<close> is the sequence of posts that \<open>subreddit.new(limit=limit)\<close>
  yields for the subreddit \<open>name\<close>.
\<close>

definition collect_initial_cohort ::
  "(string \<Rightarrow> nat \<Rightarrow> submission list) \<Rightarrow> string \<Rightarrow> nat \<Rightarrow> world
     \<Rightarrow> (post_record list \<times> string list) \<times> world" where
  "collect_initial_cohort subreddit_new subreddit_name limit w =
     (let w1 = print (Pass1Start subreddit_name) w;
          w2 = emit (Listing subreddit_name limit) w1;
          ((posts_data, post_fullnames), w3) =
             cohort_loop 1 (subreddit_new subreddit_name limit) [] [] w2;
          w4 = print (Collected (length posts_data) subreddit_name) w3
      in ((posts_data, post_fullnames), w4))"

text \<open>
  What \<open>collect_post_data\<close> returns for each post of the stream in turn, on the state
  the loop has reached there.
\<close>

fun post_outcomes :: "nat \<Rightarrow> submission list \<Rightarrow> world \<Rightarrow> post_record option list" where
  "post_outcomes i [] w = []"
| "post_outcomes i (post # posts) w =
     (let w1 = (if i mod 100 = 0 then print (Processed i) w else w);
          (post_data, w2) = collect_post_data post w1
      in post_data # post_outcomes (Suc i) posts w2)"

definition cohort_outcomes ::
  "(string \<Rightarrow> nat \<Rightarrow> submission list) \<Rightarrow> string \<Rightarrow> nat \<Rightarrow> world \<Rightarrow> post_record option list" where
  "cohort_outcomes subreddit_new subreddit_name limit w =
     post_outcomes 1 (subreddit_new subreddit_name limit)
       (emit (Listing subreddit_name limit) (print (Pass1Start subreddit_name) w))"

section \<open>Pass 2: \<open>collect_data_2.py\<close>\<close>

subsection \<open>\<open>get_final_post_status\<close>\<close>

record status_record =
  final_score :: "int option"
  final_num_comments :: "int option"
  final_upvote_ratio :: "rat option"
  is_removed_official :: bool
  is_removed_content :: bool
  is_removed_inferred :: bool
  removed_by_category :: "string option"
  is_deleted :: bool
  is_deleted_author :: bool
  is_deleted_content :: bool
  is_locked :: "bool option"
  is_archived :: "bool option"
  rechecked_at_utc :: datetime

text \<open>
  \<open>status_map\<close> is a Python dictionary: an association list in insertion order with
  distinct keys; storing under a key it has replaces the value in place.
\<close>

type_synonym status_map = "(string, status_record) alist"

text \<open>
  Line 37: \<open>(body == '[removed]') or (post.title == '[removed]')\<close>; the title is read
  only when the first disjunct is false.
\<close>

definition removed_content :: "submission \<Rightarrow> string option \<Rightarrow> exn + bool" where
  "removed_content post body =
     (if body = Some ''[removed]'' then Inr True
      else bind_exn (attr (submission_title post)) (\<lambda>ti. Inr (ti = Some ''[removed]'')))"

text \<open>
  Lines 34 to 62 for one post: the flags and the dictionary stored for it, where
  \<open>rechecked\<close> is what \<open>datetime.now\<close>, the last entry evaluated, returns.
\<close>

definition post_status :: "submission \<Rightarrow> datetime \<Rightarrow> exn + status_record" where
  "post_status post rechecked =
     (let body = getattr_default (submission_selftext post) in
      bind_exn (attr (submission_removed_by_category post)) (\<lambda>category.
      let is_removed_official' = (category \<noteq> None) in
      bind_exn (removed_content post body) (\<lambda>is_removed_content'.
      let is_deleted_content' = (body = Some ''[deleted]'') in
      bind_exn (attr (submission_author post)) (\<lambda>author.
      let is_deleted_author' =
            (case author of None \<Rightarrow> True | Some a \<Rightarrow> redditor_name a = ''[deleted]'');
          is_deleted' = (is_deleted_author' \<or> is_deleted_content');
          is_removed_inferred' =
            (is_removed_official' \<or> is_removed_content'
             \<or> (hasattr (submission_is_robot_indexable post)
                 \<and> submission_is_robot_indexable post = Val False))
      in
      bind_exn (attr (submission_score post)) (\<lambda>sc.
      bind_exn (attr (submission_num_comments post)) (\<lambda>nc.
      bind_exn (attr (submission_upvote_ratio post)) (\<lambda>ur.
      bind_exn (attr (submission_locked post)) (\<lambda>lo.
      bind_exn (attr (submission_archived post)) (\<lambda>ar.
        Inr \<lparr> final_score = sc,
              final_num_comments = nc,
              final_upvote_ratio = ur,
              is_removed_official = is_removed_official',
              is_removed_content = is_removed_content',
              is_removed_inferred = is_removed_inferred',
              removed_by_category = category,
              is_deleted = is_deleted',
              is_deleted_author = is_deleted_author',
              is_deleted_content = is_deleted_content',
              is_locked = lo,
              is_archived = ar,
              rechecked_at_utc = rechecked \<rparr>)))))))))"

text \<open>
  The inner loop of lines 33 to 62 over the posts a bulk lookup yields. It stops at the
  first exception (returned as \<open>Some e\<close>); the entries stored before it stay.
\<close>

fun store_posts ::
  "submission list \<Rightarrow> status_map \<Rightarrow> env \<Rightarrow> exn option \<times> status_map \<times> env" where
  "store_posts [] status_map w = (None, status_map, w)"
| "store_posts (post # posts) status_map w =
     (case post_status post (fst (now w)) of
        Inl e \<Rightarrow> (Some e, status_map, w)
      | Inr st \<Rightarrow>
          store_posts posts (DAList.update (submission_fullname post) st status_map)
            (snd (now w)))"

text \<open>
  One round of the loop of lines 29 to 68, for the batch at offset \<open>i\<close>.
  \<open>reddit_info i batch_ids\<close> is the outcome of the bulk-info request issued for that
  batch: the posts it yields, or the exception it raises. The delay is inside the
  \<open>try\<close>, after the inner loop.
\<close>

definition batch_step ::
  "(nat \<Rightarrow> string list \<Rightarrow> exn + submission list) \<Rightarrow> string list \<Rightarrow> nat
     \<Rightarrow> status_map \<times> env \<Rightarrow> status_map \<times> env" where
  "batch_step reddit_info post_fullnames i s =
     (let batch_ids = take 100 (drop i post_fullnames);
          w1 = emit (Info batch_ids) (snd s)
      in case reddit_info i batch_ids of
           Inl e \<Rightarrow> (fst s, print (BatchError i (i + 100) e) w1)
         | Inr posts \<Rightarrow>
             (case store_posts posts (fst s) w1 of
                (Some e, status_map, w2) \<Rightarrow> (status_map, print (BatchError i (i + 100) e) w2)
              | (None, status_map, w2) \<Rightarrow>
                  (status_map, if i + 100 < length post_fullnames then sleep 2 w2 else w2)))"

text \<open>\<open>for i in range(0, len(post_fullnames), 100)\<close>, from offset \<open>i\<close> on.\<close>

function batch_loop ::
  "(nat \<Rightarrow> string list \<Rightarrow> exn + submission list) \<Rightarrow> string list \<Rightarrow> nat
     \<Rightarrow> status_map \<times> env \<Rightarrow> status_map \<times> env" where
  "batch_loop reddit_info post_fullnames i s =
     (if i < length post_fullnames
      then batch_loop reddit_info post_fullnames (i + 100)
             (batch_step reddit_info post_fullnames i s)
      else s)"
  by pat_completeness auto
termination
  by (relation "measure (\<lambda>(reddit_info, post_fullnames, i, s). length post_fullnames - i)") auto

definition get_final_post_status ::
  "(nat \<Rightarrow> string list \<Rightarrow> exn + submission list) \<Rightarrow> string list \<Rightarrow> env \<Rightarrow> status_map \<times> env" where
  "get_final_post_status reddit_info post_fullnames w =
     (let w1 = print (FetchingStatus (length post_fullnames)) w;
          (status_map, w2) = batch_loop reddit_info post_fullnames 0 (DAList.empty, w1);
          w3 = print (FoundStatus (length (DAList.impl_of status_map))) w2
      in (status_map, w3))"

subsection \<open>The cohort join of lines 113 to 118\<close>

text \<open>\<open>pd.DataFrame.from_dict(status_data, orient='index')\<close>: one row per key, in order.\<close>

definition from_dict :: "('k, 'v) alist \<Rightarrow> ('k \<times> 'v) list" where
  "from_dict d = DAList.impl_of d"

definition set_index :: "post_record list \<Rightarrow> (string \<times> post_record) list" where
  "set_index df = map (\<lambda>row. (post_fullname row, row)) df"

text \<open>
  \<open>left.join(right)\<close> of pandas (\<open>how='left'\<close>, on the index): the rows of \<open>left\<close> in
  order, each once per row of \<open>right\<close> with its index value, or once with nulls when
  \<open>right\<close> has none.
\<close>

definition join :: "('k \<times> 'a) list \<Rightarrow> ('k \<times> 'b) list \<Rightarrow> ('k \<times> 'a \<times> 'b option) list" where
  "join left right =
     concat (map (\<lambda>(k, a).
       case filter (\<lambda>(k', b). k' = k) right of
         [] \<Rightarrow> [(k, a, None)]
       | ms \<Rightarrow> map (\<lambda>(k', b). (k, a, Some b)) ms) left)"

definition reset_index ::
  "(string \<times> post_record \<times> status_record option) list
     \<Rightarrow> (post_record \<times> status_record option) list" where
  "reset_index df = map (\<lambda>(k, row, st). (row\<lparr>post_fullname := k\<rparr>, st)) df"

definition cohort_join ::
  "post_record list \<Rightarrow> status_map \<Rightarrow> (post_record \<times> status_record option) list" where
  "cohort_join df status_data = reset_index (join (set_index df) (from_dict status_data))"

text \<open>The calls of the bulk lookup and the delays of a trace, in order.\<close>

definition paced_calls :: "event list \<Rightarrow> event list" where
  "paced_calls evs = filter (\<lambda>ev. case ev of Info ids \<Rightarrow> True | Sleep d \<Rightarrow> True | _ \<Rightarrow> False) evs"

definition info_calls :: "event list \<Rightarrow> string list list" where
  "info_calls evs = concat (map (\<lambda>ev. case ev of Info ids \<Rightarrow> [ids] | _ \<Rightarrow> []) evs)"

text \<open>
  Whether lines 34 to 62 complete for a post (the clock's value has no part in it), and
  whether the round of the batch at offset \<open>i\<close> completes without an exception.
\<close>

definition status_ok :: "submission \<Rightarrow> bool" where
  "status_ok post = (case post_status post 0 of Inl e \<Rightarrow> False | Inr st \<Rightarrow> True)"

definition batch_ok ::
  "(nat \<Rightarrow> string list \<Rightarrow> exn + submission list) \<Rightarrow> string list \<Rightarrow> nat \<Rightarrow> bool" where
  "batch_ok reddit_info post_fullnames i =
     (case reddit_info i (take 100 (drop i post_fullnames)) of
        Inl e \<Rightarrow> False
      | Inr posts \<Rightarrow> list_all status_ok posts)"

section \<open>Example inputs\<close>

definition ex_world :: world where
  "ex_world = \<lparr> clock = (\<lambda>n. 1700000000000000 + 1000000 * int n), ticks = 0, trace = [],
          user_info_cache = Map.empty \<rparr>"

definition ex_alice :: redditor where
  "ex_alice = \<lparr> redditor_name = ''alice'', redditor_fetch = None,
             redditor_created_utc = Val 1600000000000000, redditor_link_karma = Val 10,
             redditor_comment_karma = Val 5, redditor_is_verified = NoAttr \<rparr>"

definition ex_ghost :: redditor where
  "ex_ghost = \<lparr> redditor_name = ''ghost'', redditor_fetch = Some NotFound,
             redditor_created_utc = NoAttr, redditor_link_karma = NoAttr,
             redditor_comment_karma = NoAttr, redditor_is_verified = NoAttr \<rparr>"

text \<open>Another \<open>Redditor\<close> object of the name \<open>ghost\<close>, whose profile would load.\<close>

definition ex_ghost_again :: redditor where
  "ex_ghost_again = ex_alice\<lparr> redditor_name := ''ghost'' \<rparr>"

definition ex_deleted :: redditor where
  "ex_deleted = ex_ghost\<lparr> redditor_name := ''[deleted]'' \<rparr>"

definition ex_post :: submission where
  "ex_post = \<lparr> submission_id = ''a'', submission_fullname = ''t3_a'',
       submission_author = Val ex_alice, submission_selftext = Val ''hello'',
       submission_created_utc = Val 1699999990000000, submission_subreddit = Val ''test'',
       submission_title = Val ''first'', submission_domain = Val ''self.test'',
       submission_score = Val 10, submission_num_comments = Val 2,
       submission_upvote_ratio = Val (9 / 10), submission_link_flair_text = PyNone,
       submission_removed_by_category = PyNone, submission_is_robot_indexable = Val True,
       submission_locked = Val False, submission_archived = Val False \<rparr>"

text \<open>A post whose creation time cannot be read, and a post of a deleted author.\<close>

definition ex_broken_post :: submission where
  "ex_broken_post = ex_post\<lparr> submission_id := ''b'', submission_fullname := ''t3_b'',
       submission_created_utc := NoAttr \<rparr>"

definition ex_orphan_post :: submission where
  "ex_orphan_post = ex_post\<lparr> submission_id := ''c'', submission_fullname := ''t3_c'',
       submission_author := PyNone \<rparr>"

definition ex_new :: "string \<Rightarrow> nat \<Rightarrow> submission list" where
  "ex_new name limit = [ex_post, ex_broken_post, ex_orphan_post]"

text \<open>
  A cohort of 101 identifiers (two batches) and two bulk lookups: one whose request for
  the first batch raises, one that answers every request with a post per identifier.
\<close>

definition ex_env :: env where
  "ex_env = \<lparr> clock = (\<lambda>n. 1700003600000000 + 1000000 * int n), ticks = 0, trace = [] \<rparr>"

definition ex_ids :: "string list" where
  "ex_ids = map (\<lambda>n. ''t3_'' @ replicate n CHR ''a'') [0..<101]"

definition ex_found :: "string \<Rightarrow> submission" where
  "ex_found x = ex_post\<lparr> submission_id := drop 3 x, submission_fullname := x \<rparr>"

definition ex_info_ok :: "nat \<Rightarrow> string list \<Rightarrow> exn + submission list" where
  "ex_info_ok i batch_ids = Inr (map ex_found batch_ids)"

definition ex_info :: "nat \<Rightarrow> string list \<Rightarrow> exn + submission list" where
  "ex_info i batch_ids = (if i = 0 then Inl OtherException else ex_info_ok i batch_ids)"

text \<open>
  A cohort in which one identifier is repeated over three batches, and a bulk lookup whose
  request for the second batch raises.
\<close>

definition ex_dup_ids :: "string list" where
  "ex_dup_ids = replicate 201 ''t3_x''"

definition ex_dup_info :: "nat \<Rightarrow> string list \<Rightarrow> exn + submission list" where
  "ex_dup_info i batch_ids = (if i = 100 then Inl OtherException else ex_info_ok i batch_ids)"

text \<open>
  The scenario of the specification: a cohort of three posts of which the bulk lookup
  still finds the first and the third, the third removed by a moderator.
\<close>

definition ex_removed_post :: submission where
  "ex_removed_post = ex_orphan_post\<lparr> submission_removed_by_category := Val ''moderator'' \<rparr>"

definition ex_scenario_ids :: "string list" where
  "ex_scenario_ids = [''t3_a'', ''t3_b'', ''t3_c'']"

definition ex_scenario_info :: "nat \<Rightarrow> string list \<Rightarrow> exn + submission list" where
  "ex_scenario_info i batch_ids = Inr [ex_post, ex_removed_post]"

definition ex_status_a :: status_record where
  "ex_status_a = \<lparr> final_score = Some 10, final_num_comments = Some 2,
       final_upvote_ratio = Some (9 / 10), is_removed_official = False,
       is_removed_content = False, is_removed_inferred = False, removed_by_category = None,
       is_deleted = False, is_deleted_author = False, is_deleted_content = False,
       is_locked = Some False, is_archived = Some False,
       rechecked_at_utc = 1700003600000000 \<rparr>"

definition ex_status_c :: status_record where
  "ex_status_c = \<lparr> final_score = Some 10, final_num_comments = Some 2,
       final_upvote_ratio = Some (9 / 10), is_removed_official = True,
       is_removed_content = False, is_removed_inferred = True,
       removed_by_category = Some ''moderator'',
       is_deleted = True, is_deleted_author = True, is_deleted_content = False,
       is_locked = Some False, is_archived = Some False,
       rechecked_at_utc = 1700003601000000 \<rparr>"

text \<open>The Pass 1 table of the scenario: one row per captured post.\<close>

definition ex_row :: "string \<Rightarrow> post_record" where
  "ex_row x = \<lparr> post_fullname = x, created_utc = 1699999990000000,
       captured_at_utc = 1700000001000000, post_age_seconds_at_capture = 11,
       subreddit = ''test'', title = Some ''first'', selftext = ''hello'',
       domain = Some ''self.test'', initial_score = Some 10, initial_num_comments = Some 2,
       initial_upvote_ratio = Some (9 / 10), link_flair_text = None,
       author_username = ''alice'', author_account_age_days = Some 1157,
       author_total_karma = Some 15, author_link_karma = Some 10,
       author_comment_karma = Some 5, author_is_verified = Some False,
       post_author_unavailable = False \<rparr>"

definition ex_df :: "post_record list" where
  "ex_df = [ex_row ''t3_a'', ex_row ''t3_b'', ex_row ''t3_c'']"

section \<open>Properties of the user-info cache\<close>

lemmas ex_defs = ex_world_def ex_alice_def ex_ghost_def ex_ghost_again_def ex_deleted_def
lemmas cui_defs = collect_user_info_def fresh_lookup_def handle_lookup_error_def cache_get_def
  user_data_def bind_exn_def attr_def hasattr_def getattr_default_def py_add_def fromtimestamp_def
  datetime_sub_def now_def emit_def print_def sleep_def unavailable_def Let_def

lemma fetches_append [simp]: "fetches (xs @ ys) = fetches xs @ fetches ys"
  by (simp add: fetches_def)

lemma sleeps_append [simp]: "sleeps (xs @ ys) = sleeps xs @ sleeps ys"
  by (simp add: sleeps_def)

lemma fetches_simps [simp]:
  "fetches [] = []" "fetches (Fetch u # evs) = u # fetches evs"
  "fetches (Sleep d # evs) = fetches evs" "fetches (Print m # evs) = fetches evs"
  "fetches (Info ids # evs) = fetches evs" "fetches (Listing s n # evs) = fetches evs"
  by (simp_all add: fetches_def)

lemma sleeps_simps [simp]:
  "sleeps [] = []" "sleeps (Fetch u # evs) = sleeps evs"
  "sleeps (Sleep d # evs) = d # sleeps evs" "sleeps (Print m # evs) = sleeps evs"
  "sleeps (Info ids # evs) = sleeps evs" "sleeps (Listing s n # evs) = sleeps evs"
  by (simp_all add: sleeps_def)

lemma collect_user_info_None: "collect_user_info None w = (Inr (unavailable ''[deleted]''), w)"
  by (simp add: collect_user_info_def)

lemma collect_user_info_deleted:
  "redditor_name a = ''[deleted]'' \<Longrightarrow> collect_user_info (Some a) w = (Inr (unavailable ''[deleted]''), w)"
  by (simp add: collect_user_info_def)

lemma collect_user_info_hit:
  "redditor_name a \<noteq> ''[deleted]'' \<Longrightarrow> user_info_cache w (redditor_name a) = Some s \<Longrightarrow>
   collect_user_info (Some a) w = (Inr s, w)"
  by (simp add: collect_user_info_def cache_get_def)

lemma user_data_consistent: "user_data a name age = Inr s \<Longrightarrow> consistent s \<and> \<not> author_unavailable s"
  by (auto simp: user_data_def bind_exn_def consistent_def split: sum.splits)

lemma fresh_lookup_Inr:
  "fresh_lookup a name w = (Inr s, w') \<Longrightarrow>
     consistent s \<and> \<not> author_unavailable s \<and> user_info_cache w' = (user_info_cache w)(name \<mapsto> s) \<and>
     trace w' = trace w @ [Fetch name, Sleep (6/10)] \<and> clock w' = clock w"
  by (auto simp: fresh_lookup_def Let_def now_def emit_def sleep_def
      split: option.splits sum.splits prod.splits dest: user_data_consistent)

lemma fresh_lookup_Inl:
  "fresh_lookup a name w = (Inl e, w') \<Longrightarrow>
     user_info_cache w' = user_info_cache w \<and> trace w' = trace w @ [Fetch name] \<and> clock w' = clock w"
  by (auto simp: fresh_lookup_def Let_def now_def emit_def sleep_def
      split: option.splits sum.splits prod.splits)

lemma handle_lookup_error_eq:
  "handle_lookup_error name e w = (r, w') \<Longrightarrow>
   \<exists>s m. r = Inr s \<and> consistent s \<and> author_unavailable s \<and> user_info_cache w' = (user_info_cache w)(name \<mapsto> s)
     \<and> trace w' = trace w @ [Print m] \<and> clock w' = clock w"
  by (auto simp: handle_lookup_error_def Let_def print_def emit_def cache_get_def unavailable_def consistent_def
      split: if_splits)

lemma collect_user_info_miss:
  assumes "redditor_name a \<noteq> ''[deleted]''" "user_info_cache w (redditor_name a) = None"
    and "collect_user_info (Some a) w = (r, w')"
  shows "\<exists>s evs. r = Inr s \<and> consistent s \<and> user_info_cache w' = (user_info_cache w)(redditor_name a \<mapsto> s)
     \<and> trace w' = trace w @ Fetch (redditor_name a) # evs \<and> fetches evs = []
     \<and> (sleeps evs = [] \<or> sleeps evs = [6/10]) \<and> clock w' = clock w"
proof (cases "fresh_lookup a (redditor_name a) w")
  case (Pair x w1)
  show ?thesis
  proof (cases x)
    case (Inl e)
    with Pair assms have h: "handle_lookup_error (redditor_name a) e w1 = (r, w')"
      by (simp add: collect_user_info_def)
    from fresh_lookup_Inl[OF Pair[unfolded Inl]] handle_lookup_error_eq[OF h]
    show ?thesis by auto
  next
    case (Inr s)
    with Pair assms have "r = Inr s" "w' = w1"
      by (simp_all add: collect_user_info_def)
    with fresh_lookup_Inr[OF Pair[unfolded Inr]] show ?thesis by auto
  qed
qed


lemma collect_user_info_cases:
  assumes "collect_user_info author w = (r, w')"
  obtains
    (null) "author = None" "w' = w" "r = Inr (unavailable ''[deleted]'')"
  | (deleted) a where "author = Some a" "redditor_name a = ''[deleted]''" "w' = w"
      "r = Inr (unavailable ''[deleted]'')"
  | (hit) a s where "author = Some a" "redditor_name a \<noteq> ''[deleted]''"
      "user_info_cache w (redditor_name a) = Some s" "w' = w" "r = Inr s"
  | (miss) a s evs where "author = Some a" "redditor_name a \<noteq> ''[deleted]''"
      "user_info_cache w (redditor_name a) = None" "r = Inr s" "consistent s"
      "user_info_cache w' = (user_info_cache w)(redditor_name a \<mapsto> s)"
      "trace w' = trace w @ Fetch (redditor_name a) # evs" "fetches evs = []"
      "sleeps evs = [] \<or> sleeps evs = [6 / 10]" "clock w' = clock w"
proof (cases author)
  case None
  with assms have "w' = w" "r = Inr (unavailable ''[deleted]'')"
    by (simp_all add: collect_user_info_None)
  then show ?thesis by (rule null[OF None])
next
  case (Some a)
  show ?thesis
  proof (cases "redditor_name a = ''[deleted]''")
    case True
    with assms Some have "w' = w" "r = Inr (unavailable ''[deleted]'')"
      by (simp_all add: collect_user_info_deleted)
    then show ?thesis by (rule deleted[OF Some True])
  next
    case nd: False
    show ?thesis
    proof (cases "user_info_cache w (redditor_name a)")
      case None
      from collect_user_info_miss[OF nd None assms[unfolded Some]] obtain s evs where
        *: "r = Inr s" "consistent s"
        "user_info_cache w' = (user_info_cache w)(redditor_name a \<mapsto> s)"
        "trace w' = trace w @ Fetch (redditor_name a) # evs" "fetches evs = []"
        "sleeps evs = [] \<or> sleeps evs = [6 / 10]" "clock w' = clock w"
        by blast
      show ?thesis by (rule miss[OF Some nd None *])
    next
      case cached: (Some s)
      from assms \<open>author = Some a\<close> nd cached have "w' = w" "r = Inr s"
        by (simp_all add: collect_user_info_hit)
      then show ?thesis by (rule hit[OF \<open>author = Some a\<close> nd cached])
    qed
  qed
qed

lemma unavailable_consistent: "consistent (unavailable u)"
  by (simp add: consistent_def unavailable_def)

lemma collect_user_info_keeps:
  assumes "collect_user_info author w = (r, w')" "user_info_cache w u = Some s"
  shows "user_info_cache w' u = Some s"
  using assms(1)
proof (cases rule: collect_user_info_cases)
  case (miss a s' evs)
  with assms(2) have "u \<noteq> redditor_name a" by auto
  with miss assms(2) show ?thesis by simp
qed (use assms(2) in simp_all)

lemma lookups_keeps:
  "lookups as w = (rs, w') \<Longrightarrow> user_info_cache w u = Some s \<Longrightarrow> user_info_cache w' u = Some s"
proof (induction as arbitrary: w rs w')
  case Nil
  then show ?case by simp
next
  case (Cons a as)
  obtain r w1 where 1: "collect_user_info a w = (r, w1)" by (cases "collect_user_info a w")
  obtain rs' w2 where 2: "lookups as w1 = (rs', w2)" by (cases "lookups as w1")
  from Cons.prems(1) 1 2 have "w' = w2" by simp
  with Cons.IH[OF 2 collect_user_info_keeps[OF 1 Cons.prems(2)]] show ?case by simp
qed

lemma collect_user_info_cached_after:
  assumes "collect_user_info (Some a) w = (r, w')" "redditor_name a \<noteq> ''[deleted]''"
  shows "\<exists>s. r = Inr s \<and> user_info_cache w' (redditor_name a) = Some s"
  using assms(1)
  by (cases rule: collect_user_info_cases) (use assms(2) in auto)

lemma collect_user_info_fetch_inv:
  assumes "collect_user_info author w = (r, w')"
    and "distinct (fetches (trace w))"
    and "set (fetches (trace w)) \<subseteq> dom (user_info_cache w)"
  shows "distinct (fetches (trace w')) \<and> set (fetches (trace w')) \<subseteq> dom (user_info_cache w')"
  using assms(1)
proof (cases rule: collect_user_info_cases)
  case (miss a s evs)
  from miss(3) assms(3) have "redditor_name a \<notin> set (fetches (trace w))"
    by auto
  with miss assms(2,3) show ?thesis by auto
qed (use assms(2,3) in simp_all)

lemma lookups_fetch_inv:
  "lookups as w = (rs, w') \<Longrightarrow> distinct (fetches (trace w)) \<Longrightarrow>
   set (fetches (trace w)) \<subseteq> dom (user_info_cache w) \<Longrightarrow>
   distinct (fetches (trace w')) \<and> set (fetches (trace w')) \<subseteq> dom (user_info_cache w')"
proof (induction as arbitrary: w rs w')
  case Nil
  then show ?case by simp
next
  case (Cons a as)
  obtain r w1 where 1: "collect_user_info a w = (r, w1)" by (cases "collect_user_info a w")
  obtain rs' w2 where 2: "lookups as w1 = (rs', w2)" by (cases "lookups as w1")
  from Cons.prems(1) 1 2 have "w' = w2" by simp
  moreover from collect_user_info_fetch_inv[OF 1 Cons.prems(2,3)]
  have "distinct (fetches (trace w1))" "set (fetches (trace w1)) \<subseteq> dom (user_info_cache w1)"
    by simp_all
  ultimately show ?case using Cons.IH[OF 2] by simp
qed

lemma collect_user_info_consistent:
  assumes "collect_user_info author w = (r, w')"
    and "\<forall>s \<in> ran (user_info_cache w). consistent s"
  shows "(\<exists>s. r = Inr s \<and> consistent s) \<and> (\<forall>s \<in> ran (user_info_cache w'). consistent s)"
  using assms(1)
proof (cases rule: collect_user_info_cases)
  case null
  with assms(2) show ?thesis by (simp add: unavailable_consistent)
next
  case (deleted a)
  with assms(2) show ?thesis by (simp add: unavailable_consistent)
next
  case (hit a s)
  with assms(2) show ?thesis by (auto simp: ran_def)
next
  case (miss a s evs)
  have "ran (user_info_cache w') \<subseteq> insert s (ran (user_info_cache w))"
    unfolding miss(6) by (auto simp: ran_def)
  with miss(4,5) assms(2) show ?thesis by auto
qed

lemma lookups_consistent:
  "lookups as w = (rs, w') \<Longrightarrow> \<forall>s \<in> ran (user_info_cache w). consistent s \<Longrightarrow>
   length rs = length as \<and> (\<forall>r \<in> set rs. \<exists>s. r = Inr s \<and> consistent s)"
proof (induction as arbitrary: w rs w')
  case Nil
  then show ?case by auto
next
  case (Cons a as)
  obtain r w1 where 1: "collect_user_info a w = (r, w1)" by (cases "collect_user_info a w")
  obtain rs' w2 where 2: "lookups as w1 = (rs', w2)" by (cases "lookups as w1")
  from Cons.prems(1) 1 2 have rs: "rs = r # rs'" by simp
  from collect_user_info_consistent[OF 1 Cons.prems(2)]
  have r: "\<exists>s. r = Inr s \<and> consistent s" and c: "\<forall>s \<in> ran (user_info_cache w1). consistent s"
    by simp_all
  from Cons.IH[OF 2 c] r rs show ?case by simp
qed

text \<open>
  Claim C1. In a run that starts with no effects, the profile request is issued at most
  once per username: the usernames fetched are pairwise distinct. And once a lookup of an
  author has completed, whatever its outcome, a later lookup of an author of the same
  name (after any further lookups) returns the same snapshot and changes nothing: no
  request, no delay, no cache write.
\<close>

theorem fetch_once_per_username:
  "(trace w = [] \<longrightarrow> distinct (fetches (trace (snd (lookups as w))))) \<and>
   (redditor_name a \<noteq> ''[deleted]'' \<and> redditor_name b = redditor_name a \<longrightarrow>
      (let (r, w1) = collect_user_info (Some a) w0; w2 = snd (lookups bs w1)
       in collect_user_info (Some b) w2 = (r, w2)))"
proof (intro conjI impI)
  assume "trace w = []"
  with lookups_fetch_inv[of as w "fst (lookups as w)" "snd (lookups as w)"]
  show "distinct (fetches (trace (snd (lookups as w))))" by simp
next
  assume h: "redditor_name a \<noteq> ''[deleted]'' \<and> redditor_name b = redditor_name a"
  obtain r w1 where 1: "collect_user_info (Some a) w0 = (r, w1)"
    by (cases "collect_user_info (Some a) w0")
  obtain rs w2 where 2: "lookups bs w1 = (rs, w2)" by (cases "lookups bs w1")
  from collect_user_info_cached_after[OF 1] h obtain s
    where s: "r = Inr s" "user_info_cache w1 (redditor_name a) = Some s" by auto
  from lookups_keeps[OF 2 s(2)] have "user_info_cache w2 (redditor_name b) = Some s"
    using h by simp
  with h have "collect_user_info (Some b) w2 = (Inr s, w2)"
    by (simp add: collect_user_info_hit)
  with 1 2 s show "let (r, w1) = collect_user_info (Some a) w0; w2 = snd (lookups bs w1)
       in collect_user_info (Some b) w2 = (r, w2)" by simp
qed

theorem fetch_once_per_username_witness:
  "trace ex_world = [] \<and> redditor_name ex_ghost \<noteq> ''[deleted]'' \<and>
   redditor_name ex_ghost_again = redditor_name ex_ghost \<and>
   fetches (trace (snd (lookups
      [Some ex_alice, Some ex_ghost, Some ex_alice, None, Some ex_ghost_again] ex_world)))
     = [''alice'', ''ghost''] \<and>
   (let (r, w1) = collect_user_info (Some ex_ghost) ex_world;
        w2 = snd (lookups [Some ex_alice] w1)
    in collect_user_info (Some ex_ghost_again) w2 = (r, w2))"
  using fetch_once_per_username[of ex_world
      "[Some ex_alice, Some ex_ghost, Some ex_alice, None, Some ex_ghost_again]"
      ex_ghost ex_ghost_again ex_world "[Some ex_alice]"]
  by (simp add: ex_defs cui_defs)

text \<open>
  Claim C6. \<open>collect_user_info\<close> returns a snapshot and raises nothing, for every author
  and state; and in a run from the empty cache every lookup returns a snapshot whose
  \<open>author_unavailable\<close> flag holds exactly when the age and the three karma fields are
  all null.
\<close>

theorem collect_user_info_snapshot_invariant:
  "(\<exists>s. fst (collect_user_info author w) = Inr s) \<and>
   (user_info_cache w0 = Map.empty \<longrightarrow>
      length (fst (lookups as w0)) = length as \<and>
      (\<forall>r \<in> set (fst (lookups as w0)). \<exists>s. r = Inr s \<and> consistent s))"
proof (intro conjI impI)
  obtain r w' where 1: "collect_user_info author w = (r, w')"
    by (cases "collect_user_info author w")
  then have "\<exists>s. r = Inr s" by (cases rule: collect_user_info_cases) simp_all
  with 1 show "\<exists>s. fst (collect_user_info author w) = Inr s" by simp
next
  assume e: "user_info_cache w0 = Map.empty"
  obtain rs w' where 2: "lookups as w0 = (rs, w')" by (cases "lookups as w0")
  from e have "\<forall>s \<in> ran (user_info_cache w0). consistent s" by simp
  from lookups_consistent[OF 2 this] 2
  show "length (fst (lookups as w0)) = length as" 
    and "\<forall>r \<in> set (fst (lookups as w0)). \<exists>s. r = Inr s \<and> consistent s" by simp_all
qed

theorem collect_user_info_snapshot_invariant_witness:
  "user_info_cache ex_world = Map.empty \<and>
   (\<exists>s. fst (collect_user_info (Some ex_ghost) ex_world) = Inr s) \<and>
   length (fst (lookups [None, Some ex_deleted, Some ex_ghost, Some ex_alice, Some ex_ghost]
     ex_world)) = 5 \<and>
   list_all (\<lambda>r. case r of Inl e \<Rightarrow> False | Inr s \<Rightarrow> consistent s)
     (fst (lookups [None, Some ex_deleted, Some ex_ghost, Some ex_alice, Some ex_ghost]
        ex_world))"
  using collect_user_info_snapshot_invariant[of "Some ex_ghost" ex_world ex_world
      "[None, Some ex_deleted, Some ex_ghost, Some ex_alice, Some ex_ghost]"]
  by (auto simp: list_all_iff ex_world_def split: sum.splits)

text \<open>
  Claim C8. A lookup of a null author, of the username \<open>[deleted]\<close> or of a cached
  username adds no effect at all, so no delay. A lookup that does add a delay adds the
  single delay of 0.6 and has issued the profile request of its author.
\<close>

theorem pacing_only_on_fresh_fetch:
  "collect_user_info author w = (r, w') \<Longrightarrow>
     ((author = None \<or> (\<exists>a. author = Some a \<and> (redditor_name a = ''[deleted]''
          \<or> user_info_cache w (redditor_name a) \<noteq> None))) \<longrightarrow> trace w' = trace w) \<and>
     (sleeps (trace w') \<noteq> sleeps (trace w) \<longrightarrow>
        (\<exists>a. author = Some a \<and> sleeps (trace w') = sleeps (trace w) @ [6 / 10]
           \<and> fetches (trace w') = fetches (trace w) @ [redditor_name a]))"
  by (cases rule: collect_user_info_cases) auto

theorem pacing_only_on_fresh_fetch_witness:
  "sleeps (trace ex_world) = [] \<and>
   sleeps (trace (snd (collect_user_info (Some ex_alice) ex_world))) = [6 / 10] \<and>
   fetches (trace (snd (collect_user_info (Some ex_alice) ex_world))) = [''alice''] \<and>
   redditor_name ex_deleted = ''[deleted]'' \<and>
   trace (snd (collect_user_info (Some ex_deleted) ex_world)) = trace ex_world"
  using pacing_only_on_fresh_fetch[of "Some ex_alice" ex_world "fst (collect_user_info (Some ex_alice) ex_world)"
      "snd (collect_user_info (Some ex_alice) ex_world)"]
    pacing_only_on_fresh_fetch[of "Some ex_deleted" ex_world
      "fst (collect_user_info (Some ex_deleted) ex_world)"
      "snd (collect_user_info (Some ex_deleted) ex_world)"]
  by (simp add: ex_defs cui_defs)

text \<open>
  Claim C10. A lookup of a null author or of the username \<open>[deleted]\<close> returns the
  \<open>[deleted]\<close> snapshot and leaves the whole state, the cache included, as it was. A
  lookup that does change the cache has issued the profile request of its author and
  has written the snapshot it returns under that author's name, and nothing else.
\<close>

theorem null_and_deleted_leave_cache:
  "collect_user_info author w = (r, w') \<Longrightarrow>
     ((author = None \<or> (\<exists>a. author = Some a \<and> redditor_name a = ''[deleted]'')) \<longrightarrow>
        w' = w \<and> r = Inr (unavailable ''[deleted]'')) \<and>
     (user_info_cache w' \<noteq> user_info_cache w \<longrightarrow>
        (\<exists>a s. author = Some a \<and> r = Inr s
           \<and> user_info_cache w' = (user_info_cache w)(redditor_name a \<mapsto> s)
           \<and> fetches (trace w') = fetches (trace w) @ [redditor_name a]))"
  by (cases rule: collect_user_info_cases) auto

theorem null_and_deleted_leave_cache_witness:
  "collect_user_info None ex_world = (Inr (unavailable ''[deleted]''), ex_world) \<and>
   user_info_cache (snd (collect_user_info (Some ex_ghost) ex_world)) \<noteq> user_info_cache ex_world \<and>
   user_info_cache (snd (collect_user_info (Some ex_ghost) ex_world)) = [''ghost'' \<mapsto> unavailable ''ghost''] \<and>
   fetches (trace (snd (collect_user_info (Some ex_ghost) ex_world))) = [''ghost'']"
  using null_and_deleted_leave_cache[of None ex_world "fst (collect_user_info None ex_world)"
      "snd (collect_user_info None ex_world)"]
    null_and_deleted_leave_cache[of "Some ex_ghost" ex_world "fst (collect_user_info (Some ex_ghost) ex_world)"
      "snd (collect_user_info (Some ex_ghost) ex_world)"]
  by (auto simp add: ex_defs cui_defs fun_eq_iff)

section \<open>Properties of the cohort capture\<close>

lemmas post_defs = collect_post_data_def try_post_data_def post_dict_def fromtimestamp_value_def
  py_str_def truncate_body_def total_seconds_def

lemmas post_ex_defs = ex_post_def ex_broken_post_def ex_orphan_post_def ex_new_def

lemma total_seconds_datetime_sub:
  "total_seconds (datetime_sub a b) = of_int (a - b) / 1000000"
proof -
  define us where "us = a - b"
  have 1: "us mod 86400000000 mod 1000000 = us mod 1000000"
    by (rule mod_mod_cancel) simp
  have 2: "us mod 86400000000 = (us mod 86400000000) div 1000000 * 1000000 + us mod 1000000"
    using div_mult_mod_eq[of "us mod 86400000000" 1000000] 1 by simp
  have 3: "us = us div 86400000000 * 86400000000 + us mod 86400000000"
    by simp
  have "(us div 86400000000 * 86400 + (us mod 86400000000) div 1000000) * 1000000
          + us mod 1000000
        = us div 86400000000 * 86400000000
          + ((us mod 86400000000) div 1000000 * 1000000 + us mod 1000000)"
    by (simp add: algebra_simps)
  also have "\<dots> = us div 86400000000 * 86400000000 + us mod 86400000000"
    using 2 by simp
  also have "\<dots> = us" by simp
  finally have "(us div 86400000000 * 86400 + (us mod 86400000000) div 1000000) * 1000000
          + us mod 1000000 = us" .
  then show ?thesis
    by (simp add: total_seconds_def datetime_sub_def us_def Let_def)
qed

lemma post_dict_fields:
  "post_dict post author_info body created captured = Inr d \<Longrightarrow>
     post_fullname d = submission_fullname post \<and> created_utc d = created \<and>
     captured_at_utc d = captured \<and>
     post_age_seconds_at_capture d = total_seconds (datetime_sub captured created)"
  by (auto simp: post_dict_def bind_exn_def split: sum.splits)

lemma fromtimestamp_Inr: "fromtimestamp t = Inr c \<Longrightarrow> c = t"
  by (simp add: fromtimestamp_def split: if_splits)

lemma created_Inr:
  "bind_exn (attr x) fromtimestamp_value = Inr c \<Longrightarrow> x = Val c"
  by (cases x) (auto simp: bind_exn_def attr_def fromtimestamp_value_def dest: fromtimestamp_Inr)

lemma try_post_data_fields:
  assumes "try_post_data post w = (Inr d, w')"
  shows "post_fullname d = submission_fullname post \<and>
     submission_created_utc post = Val (created_utc d) \<and>
     post_age_seconds_at_capture d = total_seconds (datetime_sub (captured_at_utc d) (created_utc d))"
proof -
  from assms obtain author_info body created captured where
    c: "bind_exn (attr (submission_created_utc post)) fromtimestamp_value = Inr created"
    and d: "post_dict post author_info body created captured = Inr d"
    by (auto simp: try_post_data_def Let_def split: sum.splits prod.splits)
  from post_dict_fields[OF d] created_Inr[OF c] show ?thesis by simp
qed

lemma collect_post_data_Some:
  "collect_post_data post w = (Some d, w') \<Longrightarrow> try_post_data post w = (Inr d, w')"
  by (auto simp: collect_post_data_def split: sum.splits prod.splits)

lemma collect_post_data_fullname:
  "collect_post_data post w = (Some d, w') \<Longrightarrow> post_fullname d = submission_fullname post"
  using try_post_data_fields[OF collect_post_data_Some, of post w d w'] by simp

lemma cohort_loop_outcomes:
  "cohort_loop i posts acc ids w = ((posts_data, post_fullnames), w') \<Longrightarrow>
     posts_data = acc @ map the (filter (\<lambda>d. d \<noteq> None) (post_outcomes i posts w)) \<and>
     post_fullnames =
       ids @ map post_fullname (map the (filter (\<lambda>d. d \<noteq> None) (post_outcomes i posts w)))"
proof (induction posts arbitrary: i acc ids w)
  case Nil
  then show ?case by simp
next
  case (Cons post posts)
  define w1 where "w1 = (if i mod 100 = 0 then print (Processed i) w else w)"
  obtain r w2 where 1: "collect_post_data post w1 = (r, w2)"
    by (cases "collect_post_data post w1")
  show ?case
  proof (cases r)
    case None
    with Cons.prems 1 have "cohort_loop (Suc i) posts acc ids w2 = ((posts_data, post_fullnames), w')"
      by (simp add: w1_def)
    from Cons.IH[OF this] 1 None show ?thesis by (simp add: w1_def)
  next
    case (Some d)
    with Cons.prems 1 have "cohort_loop (Suc i) posts (acc @ [d]) (ids @ [post_fullname d]) w2
        = ((posts_data, post_fullnames), w')"
      by (simp add: w1_def)
    from Cons.IH[OF this] 1 Some show ?thesis by (simp add: w1_def)
  qed
qed

lemma length_post_outcomes: "length (post_outcomes i posts w) = length posts"
  by (induction posts arbitrary: i w) (auto simp: Let_def split: prod.splits)

lemma post_outcomes_fullnames:
  "map post_fullname (map the (filter (\<lambda>d. d \<noteq> None) (post_outcomes i posts w)))
     = map (submission_fullname \<circ> fst)
         (filter (\<lambda>(p, d). d \<noteq> None) (zip posts (post_outcomes i posts w)))"
proof (induction posts arbitrary: i w)
  case Nil
  then show ?case by simp
next
  case (Cons post posts)
  define w1 where "w1 = (if i mod 100 = 0 then print (Processed i) w else w)"
  obtain r w2 where 1: "collect_post_data post w1 = (r, w2)"
    by (cases "collect_post_data post w1")
  show ?case
  proof (cases r)
    case None
    with 1 Cons.IH[of "Suc i" w2] show ?thesis by (simp add: w1_def)
  next
    case (Some d)
    with 1 collect_post_data_fullname[of post w1 d w2] Cons.IH[of "Suc i" w2]
    show ?thesis by (simp add: w1_def)
  qed
qed

text \<open>
  Claim C9. In every record \<open>collect_post_data\<close> returns, \<open>created_utc\<close> is the creation
  time of the post and \<open>post_age_seconds_at_capture\<close> is the capture time minus the
  creation time in seconds (their difference in microseconds over one million); it is not
  negative when the capture time is not earlier than the creation time.
\<close>

theorem post_age_is_capture_minus_creation:
  "collect_post_data post w = (Some d, w') \<Longrightarrow>
     submission_created_utc post = Val (created_utc d) \<and>
     post_age_seconds_at_capture d = of_int (captured_at_utc d - created_utc d) / 1000000 \<and>
     (created_utc d \<le> captured_at_utc d \<longrightarrow> 0 \<le> post_age_seconds_at_capture d)"
  using try_post_data_fields[OF collect_post_data_Some, of post w d w']
  by (simp add: total_seconds_datetime_sub)

theorem post_age_is_capture_minus_creation_witness:
  "fst (collect_post_data ex_post ex_world) \<noteq> None \<and>
   created_utc (the (fst (collect_post_data ex_post ex_world))) = 1699999990000000 \<and>
   captured_at_utc (the (fst (collect_post_data ex_post ex_world))) = 1700000001000000 \<and>
   post_age_seconds_at_capture (the (fst (collect_post_data ex_post ex_world))) = 11 \<and>
   (0::rat) \<le> 11"
  using post_age_is_capture_minus_creation[of ex_post ex_world
      "the (fst (collect_post_data ex_post ex_world))" "snd (collect_post_data ex_post ex_world)"]
  by (simp add: post_defs post_ex_defs ex_defs cui_defs)

text \<open>
  Claim C7. \<open>collect_initial_cohort\<close> processes every post of the stream: a post whose
  record cannot be built yields \<open>None\<close> and is skipped, and the loop goes on. The records
  returned are exactly the records built, in the order of the stream; the identifier
  list is parallel to them (the \<open>post_fullname\<close> of each record, of the same length),
  and it is the list of the fullnames of the posts that were not skipped.
\<close>

theorem cohort_skips_failed_posts:
  "collect_initial_cohort subreddit_new name limit w = ((posts_data, post_fullnames), w') \<Longrightarrow>
     length (cohort_outcomes subreddit_new name limit w) = length (subreddit_new name limit) \<and>
     posts_data = map the (filter (\<lambda>d. d \<noteq> None) (cohort_outcomes subreddit_new name limit w)) \<and>
     post_fullnames = map post_fullname posts_data \<and>
     length post_fullnames = length posts_data \<and>
     post_fullnames = map (submission_fullname \<circ> fst)
       (filter (\<lambda>(p, d). d \<noteq> None)
          (zip (subreddit_new name limit) (cohort_outcomes subreddit_new name limit w)))"
proof -
  define w2 where "w2 = emit (Listing name limit) (print (Pass1Start name) w)"
  assume a: "collect_initial_cohort subreddit_new name limit w = ((posts_data, post_fullnames), w')"
  obtain pd pf w3 where l: "cohort_loop 1 (subreddit_new name limit) [] [] w2 = ((pd, pf), w3)"
    by (metis surj_pair)
  with a have e: "posts_data = pd" "post_fullnames = pf"
    by (simp_all add: collect_initial_cohort_def w2_def)
  have o: "cohort_outcomes subreddit_new name limit w
      = post_outcomes 1 (subreddit_new name limit) w2"
    by (simp add: cohort_outcomes_def w2_def)
  from cohort_loop_outcomes[OF l] e
  have pd: "posts_data
      = map the (filter (\<lambda>d. d \<noteq> None) (cohort_outcomes subreddit_new name limit w))"
    and pf: "post_fullnames = map post_fullname posts_data"
    unfolding o by simp_all
  from pf have len: "length post_fullnames = length posts_data" by simp
  from pf pd post_outcomes_fullnames[of 1 "subreddit_new name limit" w2]
  have z: "post_fullnames = map (submission_fullname \<circ> fst)
       (filter (\<lambda>(p, d). d \<noteq> None)
          (zip (subreddit_new name limit) (cohort_outcomes subreddit_new name limit w)))"
    unfolding o by simp
  have n: "length (cohort_outcomes subreddit_new name limit w) = length (subreddit_new name limit)"
    unfolding o by (rule length_post_outcomes)
  from n pd pf len z show ?thesis by blast
qed

theorem cohort_skips_failed_posts_witness:
  "snd (fst (collect_initial_cohort ex_new ''test'' 100 ex_world)) = [''t3_a'', ''t3_c''] \<and>
   map post_fullname (fst (fst (collect_initial_cohort ex_new ''test'' 100 ex_world)))
     = [''t3_a'', ''t3_c''] \<and>
   map (\<lambda>d. d \<noteq> None) (cohort_outcomes ex_new ''test'' 100 ex_world) = [True, False, True]"
  using cohort_skips_failed_posts[of ex_new "''test''" 100 ex_world
      "fst (fst (collect_initial_cohort ex_new ''test'' 100 ex_world))"
      "snd (fst (collect_initial_cohort ex_new ''test'' 100 ex_world))"
      "snd (collect_initial_cohort ex_new ''test'' 100 ex_world)"]
  by (simp add: collect_initial_cohort_def cohort_outcomes_def post_defs post_ex_defs ex_defs
      cui_defs)

section \<open>Properties of the batch re-check\<close>

declare batch_loop.simps [simp del]

lemma paced_calls_append [simp]: "paced_calls (xs @ ys) = paced_calls xs @ paced_calls ys"
  by (simp add: paced_calls_def)

lemma info_calls_append [simp]: "info_calls (xs @ ys) = info_calls xs @ info_calls ys"
  by (simp add: info_calls_def)

lemma paced_calls_simps [simp]:
  "paced_calls [] = []" "paced_calls (Info ids # evs) = Info ids # paced_calls evs"
  "paced_calls (Sleep d # evs) = Sleep d # paced_calls evs"
  "paced_calls (Print m # evs) = paced_calls evs"
  by (simp_all add: paced_calls_def)

lemma info_calls_simps [simp]:
  "info_calls [] = []" "info_calls (Info ids # evs) = ids # info_calls evs"
  "info_calls (Sleep d # evs) = info_calls evs"
  "info_calls (Print m # evs) = info_calls evs"
  by (simp_all add: info_calls_def)

lemma post_status_clock:
  "(case post_status post t of Inl e \<Rightarrow> False | Inr st \<Rightarrow> True) = status_ok post"
  by (simp add: status_ok_def post_status_def bind_exn_def Let_def split: sum.splits)

lemma store_posts_trace: "trace (snd (snd (store_posts posts m w))) = trace w"
  by (induction posts arbitrary: m w) (auto simp: now_def split: sum.splits)

lemma store_posts_ok: "fst (store_posts posts m w) = None \<longleftrightarrow> list_all status_ok posts"
proof (induction posts arbitrary: m w)
  case Nil
  then show ?case by simp
next
  case (Cons post posts)
  show ?case
  proof (cases "post_status post (fst (now w))")
    case (Inl e)
    with post_status_clock[of post "fst (now w)"] show ?thesis by simp
  next
    case (Inr st)
    with post_status_clock[of post "fst (now w)"] Cons.IH show ?thesis by simp
  qed
qed


lemma batch_step_paced:
  "paced_calls (trace (snd (batch_step info ids i s))) =
     paced_calls (trace (snd s)) @ Info (take 100 (drop i ids)) #
       (if i + 100 < length ids \<and> batch_ok info ids i then [Sleep 2] else [])"
proof (cases "info i (take 100 (drop i ids))")
  case (Inl e)
  then show ?thesis
    by (simp add: batch_step_def batch_ok_def Let_def emit_def print_def)
next
  case (Inr posts)
  define w1 where "w1 = emit (Info (take 100 (drop i ids))) (snd s)"
  obtain r m' w2 where st: "store_posts posts (fst s) w1 = (r, m', w2)"
    by (cases "store_posts posts (fst s) w1") auto
  from store_posts_trace[of posts "fst s" w1] st have t: "trace w2 = trace w1" by simp
  from store_posts_ok[of posts "fst s" w1] st have ok: "r = None \<longleftrightarrow> list_all status_ok posts"
    by simp
  show ?thesis
  proof (cases r)
    case None
    with Inr st t ok show ?thesis
      by (simp add: batch_step_def batch_ok_def Let_def w1_def[symmetric])
        (simp add: w1_def emit_def sleep_def)
  next
    case (Some e)
    with Inr st t ok show ?thesis
      by (simp add: batch_step_def batch_ok_def Let_def w1_def[symmetric])
        (simp add: w1_def emit_def print_def)
  qed
qed

lemma upt_Suc_shift: "[0..<Suc m] = 0 # map Suc [0..<m]"
  by (simp add: upt_conv_Cons map_Suc_upt del: upt_Suc)

lemma batches_step:
  fixes i n :: nat
  assumes "i < n"
  shows "(n - i + 99) div 100 = Suc ((n - (i + 100) + 99) div 100)"
proof (cases "i + 100 \<le> n")
  case True
  then have e: "n - i + 99 = (n - (i + 100) + 99) + 100" by linarith
  have "(n - i + 99) div 100 = ((n - (i + 100) + 99) + 100) div 100"
    by (simp only: e)
  also have "\<dots> = (n - (i + 100) + 99) div 100 + 1"
    by (rule div_add_self2) simp
  finally show ?thesis by (simp only: Suc_eq_plus1)
next
  case False
  with assms have z: "n - (i + 100) = 0" and lo: "100 * 1 \<le> n - i + 99"
    and hi: "n - i + 99 < 100 * Suc 1" by simp_all
  have "(n - i + 99) div 100 = 1" using lo hi by (rule div_nat_eqI)
  moreover have "(n - (i + 100) + 99) div 100 = 0" unfolding z by simp
  ultimately show ?thesis by (simp only: One_nat_def)
qed

lemma offsets_step:
  assumes "i < n"
  shows "map (\<lambda>k. i + 100 * k) [0..<(n - i + 99) div 100]
       = i # map (\<lambda>k. (i + 100) + 100 * k) [0..<(n - (i + 100) + 99) div 100]"
  by (simp only: batches_step[OF assms] upt_Suc_shift list.map map_map o_def) simp

lemma batch_loop_paced:
  "paced_calls (trace (snd (batch_loop info ids i s))) =
     paced_calls (trace (snd s)) @
       concat (map (\<lambda>j. Info (take 100 (drop j ids)) #
                      (if j + 100 < length ids \<and> batch_ok info ids j then [Sleep 2] else []))
                 (map (\<lambda>k. i + 100 * k) [0..<(length ids - i + 99) div 100]))"
proof (induction info ids i s rule: batch_loop.induct)
  case (1 info ids i s)
  show ?case
  proof (cases "i < length ids")
    case True
    then have "batch_loop info ids i s = batch_loop info ids (i + 100) (batch_step info ids i s)"
      by (simp add: batch_loop.simps)
    with "1.IH"[OF True] batch_step_paced[of info ids i s] show ?thesis
      by (simp only: offsets_step[OF True]) simp
  next
    case False
    then have "(length ids - i + 99) div 100 = 0" by simp
    with False show ?thesis by (simp add: batch_loop.simps)
  qed
qed

lemma get_final_post_status_paced:
  "paced_calls (trace (snd (get_final_post_status info ids w))) =
     paced_calls (trace w) @
       concat (map (\<lambda>k. Info (take 100 (drop (100 * k) ids)) #
                      (if k + 1 < (length ids + 99) div 100 \<and> batch_ok info ids (100 * k)
                       then [Sleep 2] else []))
                 [0..<(length ids + 99) div 100])"
proof -
  define w1 where "w1 = print (FetchingStatus (length ids)) w"
  have c: "\<And>k. (100 * k + 100 < length ids) = (k + 1 < (length ids + 99) div 100)"
    by linarith
  have "paced_calls (trace (snd (get_final_post_status info ids w)))
      = paced_calls (trace (snd (batch_loop info ids 0 (DAList.empty, w1))))"
    by (simp add: get_final_post_status_def Let_def w1_def print_def emit_def
        split: prod.splits)
  also have "\<dots> = paced_calls (trace w) @
       concat (map (\<lambda>j. Info (take 100 (drop j ids)) #
                      (if j + 100 < length ids \<and> batch_ok info ids j then [Sleep 2] else []))
                 (map (\<lambda>k. 0 + 100 * k) [0..<(length ids - 0 + 99) div 100]))"
    unfolding batch_loop_paced by (simp add: w1_def print_def emit_def)
  finally show ?thesis by (simp add: o_def c)
qed

lemma ceiling_batches: "int ((n + 99) div 100) = \<lceil>(of_nat n :: rat) / 100\<rceil>"
proof -
  have "\<lceil>(of_nat n :: rat) / 100\<rceil> = \<lceil>(of_int (int n) :: rat) / of_int 100\<rceil>" by simp
  also have "\<dots> = - (- int n div 100)" by (rule ceiling_divide_eq_div)
  also have "\<dots> = int ((n + 99) div 100)" by linarith
  finally show ?thesis by simp
qed


lemma info_calls_paced: "info_calls (paced_calls evs) = info_calls evs"
proof (induction evs)
  case Nil
  then show ?case by simp
next
  case (Cons ev evs)
  then show ?case by (cases ev) (simp_all add: paced_calls_def info_calls_def)
qed

lemma sleeps_paced: "sleeps (paced_calls evs) = sleeps evs"
proof (induction evs)
  case Nil
  then show ?case by (simp add: paced_calls_def)
next
  case (Cons ev evs)
  then show ?case by (cases ev) (simp_all add: paced_calls_def sleeps_def)
qed

lemma info_calls_schedule:
  "info_calls (concat (map (\<lambda>k. Info (f k) # (if c k then [Sleep 2] else [])) ks)) = map f ks"
  by (induction ks) simp_all

lemma concat_slices:
  "concat (map (\<lambda>k. take 100 (drop (100 * k) xs)) [0..<m]) = take (100 * m) xs"
proof (induction m)
  case 0
  then show ?case by simp
next
  case (Suc m)
  have "take (100 * Suc m) xs = take (100 * m + 100) xs" by (simp add: add.commute)
  also have "\<dots> = take (100 * m) xs @ take 100 (drop (100 * m) xs)" by (rule take_add)
  finally show ?case using Suc by simp
qed

lemma concat_all_slices:
  "concat (map (\<lambda>k. take 100 (drop (100 * k) xs)) [0..<(length xs + 99) div 100]) = xs"
proof -
  have "length xs \<le> 100 * ((length xs + 99) div 100)" by linarith
  then show ?thesis by (simp add: concat_slices)
qed

text \<open>
  Claim C2, as the code has it. For a list of \<open>N\<close> identifiers \<open>get_final_post_status\<close>
  issues \<open>\<lceil>N / 100\<rceil>\<close> bulk-info calls, the \<open>k\<close>-th over the slice of at most 100
  identifiers from offset \<open>100 k\<close>, in order; together the slices are the input list. The
  delay of 2 follows a call exactly when its batch is not the last one and its round
  completed without an exception: the delay is inside the \<open>try\<close>, so no delay follows a
  batch that raises. No delay follows the last batch, and an empty list gives no call
  and no delay.
\<close>

theorem batches_and_pacing:
  "get_final_post_status reddit_info ids w = (status_map, w') \<Longrightarrow>
     paced_calls (trace w') =
       paced_calls (trace w) @
         concat (map (\<lambda>k. Info (take 100 (drop (100 * k) ids)) #
                        (if k + 1 < (length ids + 99) div 100 \<and> batch_ok reddit_info ids (100 * k)
                         then [Sleep 2] else []))
                   [0..<(length ids + 99) div 100]) \<and>
     info_calls (trace w') =
       info_calls (trace w) @
         map (\<lambda>k. take 100 (drop (100 * k) ids)) [0..<(length ids + 99) div 100] \<and>
     int ((length ids + 99) div 100) = \<lceil>(of_nat (length ids) :: rat) / 100\<rceil> \<and>
     concat (map (\<lambda>k. take 100 (drop (100 * k) ids)) [0..<(length ids + 99) div 100]) = ids"
proof -
  assume "get_final_post_status reddit_info ids w = (status_map, w')"
  then have w': "w' = snd (get_final_post_status reddit_info ids w)" by simp
  have p: "paced_calls (trace w') =
       paced_calls (trace w) @
         concat (map (\<lambda>k. Info (take 100 (drop (100 * k) ids)) #
                        (if k + 1 < (length ids + 99) div 100 \<and> batch_ok reddit_info ids (100 * k)
                         then [Sleep 2] else []))
                   [0..<(length ids + 99) div 100])"
    unfolding w' by (rule get_final_post_status_paced)
  have "info_calls (trace w') = info_calls (paced_calls (trace w'))"
    by (simp only: info_calls_paced)
  also have "\<dots> = info_calls (trace w) @
         map (\<lambda>k. take 100 (drop (100 * k) ids)) [0..<(length ids + 99) div 100]"
    unfolding p by (simp only: info_calls_append info_calls_paced info_calls_schedule)
  finally have i: "info_calls (trace w') = info_calls (trace w) @
         map (\<lambda>k. take 100 (drop (100 * k) ids)) [0..<(length ids + 99) div 100]" .
  from p i ceiling_batches[of "length ids"] concat_all_slices[of ids] show ?thesis by blast
qed

lemma length_ex_ids: "length ex_ids = 101"
  by (simp add: ex_ids_def)

lemma batch_ok_ex_info: "\<not> batch_ok ex_info ex_ids 0"
  by (simp add: batch_ok_def ex_info_def)

lemma status_ok_ex_found: "status_ok (ex_found x)"
  by (simp add: status_ok_def ex_found_def ex_post_def post_status_def removed_content_def
      bind_exn_def attr_def getattr_default_def hasattr_def Let_def)

lemma batch_ok_ex_info_ok: "batch_ok ex_info_ok ids i"
  by (simp add: batch_ok_def ex_info_ok_def list_all_iff status_ok_ex_found)

lemma upt_2: "[0..<2] = [0, Suc 0]"
  by (simp add: upt_rec)

text \<open>
  The claim as the specification words it, a delay after every batch but the last, fails
  on 101 identifiers when the request for the first batch raises: two calls, no delay.
\<close>

theorem pacing_after_every_batch_counterexample:
  "length ex_ids = 101 \<and>
   sleeps (trace (snd (get_final_post_status ex_info ex_ids ex_env))) = [] \<and>
   paced_calls (trace (snd (get_final_post_status ex_info ex_ids ex_env))) \<noteq>
     paced_calls (trace ex_env) @
       concat (map (\<lambda>k. Info (take 100 (drop (100 * k) ex_ids)) #
                      (if k + 1 < (length ex_ids + 99) div 100 then [Sleep 2] else []))
                 [0..<(length ex_ids + 99) div 100])"
proof -
  have p: "paced_calls (trace (snd (get_final_post_status ex_info ex_ids ex_env))) =
      [Info (take 100 (drop 0 ex_ids)), Info (take 100 (drop 100 ex_ids))]"
    unfolding get_final_post_status_paced
    by (simp add: length_ex_ids upt_2 batch_ok_ex_info ex_env_def)
  have "sleeps (trace (snd (get_final_post_status ex_info ex_ids ex_env)))
      = sleeps (paced_calls (trace (snd (get_final_post_status ex_info ex_ids ex_env))))"
    by (simp only: sleeps_paced)
  also have "\<dots> = []" unfolding p by (simp add: sleeps_def)
  finally have s: "sleeps (trace (snd (get_final_post_status ex_info ex_ids ex_env))) = []" .
  have "paced_calls (trace ex_env) @
       concat (map (\<lambda>k. Info (take 100 (drop (100 * k) ex_ids)) #
                      (if k + 1 < (length ex_ids + 99) div 100 then [Sleep 2] else []))
                 [0..<(length ex_ids + 99) div 100])
      = [Info (take 100 (drop 0 ex_ids)), Sleep 2, Info (take 100 (drop 100 ex_ids))]"
    by (simp add: length_ex_ids upt_2 ex_env_def)
  with p s length_ex_ids show ?thesis by simp
qed

theorem batches_and_pacing_witness:
  "sleeps (trace (snd (get_final_post_status ex_info_ok ex_ids ex_env))) = [2] \<and>
   map length (info_calls (trace (snd (get_final_post_status ex_info_ok ex_ids ex_env))))
     = [100, 1] \<and>
   sleeps (trace (snd (get_final_post_status ex_info ex_ids ex_env))) = [] \<and>
   map length (info_calls (trace (snd (get_final_post_status ex_info ex_ids ex_env))))
     = [100, 1] \<and>
   \<lceil>(of_nat (length ex_ids) :: rat) / 100\<rceil> = 2"
proof -
  from batches_and_pacing[of ex_info_ok ex_ids ex_env
      "fst (get_final_post_status ex_info_ok ex_ids ex_env)"
      "snd (get_final_post_status ex_info_ok ex_ids ex_env)"]
  have ok: "paced_calls (trace (snd (get_final_post_status ex_info_ok ex_ids ex_env)))
      = [Info (take 100 (drop 0 ex_ids)), Sleep 2, Info (take 100 (drop 100 ex_ids))]"
    and iok: "info_calls (trace (snd (get_final_post_status ex_info_ok ex_ids ex_env)))
      = [take 100 (drop 0 ex_ids), take 100 (drop 100 ex_ids)]"
    and c: "\<lceil>(of_nat (length ex_ids) :: rat) / 100\<rceil> = 2"
    by (simp_all add: length_ex_ids upt_2 batch_ok_ex_info_ok ex_env_def)
  from batches_and_pacing[of ex_info ex_ids ex_env
      "fst (get_final_post_status ex_info ex_ids ex_env)"
      "snd (get_final_post_status ex_info ex_ids ex_env)"]
  have bad: "paced_calls (trace (snd (get_final_post_status ex_info ex_ids ex_env)))
      = [Info (take 100 (drop 0 ex_ids)), Info (take 100 (drop 100 ex_ids))]"
    and ibad: "info_calls (trace (snd (get_final_post_status ex_info ex_ids ex_env)))
      = [take 100 (drop 0 ex_ids), take 100 (drop 100 ex_ids)]"
    by (simp_all add: length_ex_ids upt_2 batch_ok_ex_info ex_env_def)
  have s1: "sleeps (trace (snd (get_final_post_status ex_info_ok ex_ids ex_env))) = [2]"
    using sleeps_paced[of "trace (snd (get_final_post_status ex_info_ok ex_ids ex_env))"]
    unfolding ok by (simp add: sleeps_def)
  have s2: "sleeps (trace (snd (get_final_post_status ex_info ex_ids ex_env))) = []"
    using sleeps_paced[of "trace (snd (get_final_post_status ex_info ex_ids ex_env))"]
    unfolding bad by (simp add: sleeps_def)
  from s1 s2 c show ?thesis unfolding iok ibad by (simp add: length_ex_ids)
qed


subsection \<open>The entries of the status mapping\<close>

lemma store_posts_provenance:
  "DAList.lookup (fst (snd (store_posts posts m w))) k = Some st \<Longrightarrow>
     DAList.lookup m k = Some st \<or>
     (\<exists>p \<in> set posts. \<exists>t. post_status p t = Inr st \<and> submission_fullname p = k)"
proof (induction posts arbitrary: m w)
  case Nil
  then show ?case by simp
next
  case (Cons post posts)
  show ?case
  proof (cases "post_status post (fst (now w))")
    case (Inl e)
    with Cons.prems show ?thesis by simp
  next
    case (Inr st0)
    with Cons.prems have
      "DAList.lookup (fst (snd (store_posts posts
          (DAList.update (submission_fullname post) st0 m) (snd (now w))))) k = Some st"
      by simp
    from Cons.IH[OF this] show ?thesis
    proof
      assume u: "DAList.lookup (DAList.update (submission_fullname post) st0 m) k = Some st"
      show ?thesis
      proof (cases "k = submission_fullname post")
        case True
        with u have "st = st0" by simp
        with Inr True show ?thesis by auto
      next
        case False
        with u show ?thesis by simp
      qed
    next
      assume "\<exists>p \<in> set posts. \<exists>t. post_status p t = Inr st \<and> submission_fullname p = k"
      then show ?thesis by auto
    qed
  qed
qed

lemma store_posts_keeps:
  "DAList.lookup m k \<noteq> None \<Longrightarrow> DAList.lookup (fst (snd (store_posts posts m w))) k \<noteq> None"
proof (induction posts arbitrary: m w)
  case Nil
  then show ?case by simp
next
  case (Cons post posts)
  show ?case
  proof (cases "post_status post (fst (now w))")
    case (Inl e)
    with Cons.prems show ?thesis by simp
  next
    case (Inr st0)
    from Cons.prems have "DAList.lookup (DAList.update (submission_fullname post) st0 m) k \<noteq> None"
      by (simp add: DAList.lookup_update)
    from Cons.IH[OF this] Inr show ?thesis by simp
  qed
qed

lemma store_posts_stores:
  "fst (store_posts posts m w) = None \<Longrightarrow> p \<in> set posts \<Longrightarrow>
     DAList.lookup (fst (snd (store_posts posts m w))) (submission_fullname p) \<noteq> None"
proof (induction posts arbitrary: m w)
  case Nil
  then show ?case by simp
next
  case (Cons post posts)
  show ?case
  proof (cases "post_status post (fst (now w))")
    case (Inl e)
    with Cons.prems show ?thesis by simp
  next
    case (Inr st0)
    define m1 where "m1 = DAList.update (submission_fullname post) st0 m"
    from Inr Cons.prems(1) have ok: "fst (store_posts posts m1 (snd (now w))) = None"
      by (simp add: m1_def)
    from Inr have eq: "store_posts (post # posts) m w = store_posts posts m1 (snd (now w))"
      by (simp add: m1_def)
    show ?thesis
    proof (cases "p = post")
      case True
      have "DAList.lookup m1 (submission_fullname p) \<noteq> None"
        by (simp add: m1_def True)
      from store_posts_keeps[OF this] eq show ?thesis by simp
    next
      case False
      with Cons.prems(2) have "p \<in> set posts" by simp
      from Cons.IH[OF ok this] eq show ?thesis by simp
    qed
  qed
qed

lemma batch_step_cases:
  obtains (raised) e where "reddit_info i (take 100 (drop i ids)) = Inl e"
      "fst (batch_step reddit_info ids i s) = fst s"
      "trace (snd (batch_step reddit_info ids i s))
         = trace (snd s) @ [Info (take 100 (drop i ids)), Print (BatchError i (i + 100) e)]"
  | (yielded) posts w1 evs where "reddit_info i (take 100 (drop i ids)) = Inr posts"
      "fst (batch_step reddit_info ids i s) = fst (snd (store_posts posts (fst s) w1))"
      "batch_ok reddit_info ids i \<longleftrightarrow> fst (store_posts posts (fst s) w1) = None"
      "trace (snd (batch_step reddit_info ids i s))
         = trace (snd s) @ Info (take 100 (drop i ids)) # evs"
proof (cases "reddit_info i (take 100 (drop i ids))")
  case (Inl e)
  have "fst (batch_step reddit_info ids i s) = fst s"
    and "trace (snd (batch_step reddit_info ids i s))
         = trace (snd s) @ [Info (take 100 (drop i ids)), Print (BatchError i (i + 100) e)]"
    using Inl by (simp_all add: batch_step_def Let_def emit_def print_def)
  with Inl show ?thesis by (rule raised)
next
  case (Inr posts)
  define w1 where "w1 = emit (Info (take 100 (drop i ids))) (snd s)"
  obtain r m' w2 where st: "store_posts posts (fst s) w1 = (r, m', w2)"
    by (cases "store_posts posts (fst s) w1") auto
  from store_posts_trace[of posts "fst s" w1] st
  have t: "trace w2 = trace (snd s) @ [Info (take 100 (drop i ids))]"
    by (simp add: w1_def emit_def)
  have 1: "fst (batch_step reddit_info ids i s) = fst (snd (store_posts posts (fst s) w1))"
    using Inr st by (cases r) (simp_all add: batch_step_def Let_def w1_def[symmetric])
  have 2: "batch_ok reddit_info ids i \<longleftrightarrow> fst (store_posts posts (fst s) w1) = None"
    using Inr by (simp add: batch_ok_def store_posts_ok)
  have bs: "batch_step reddit_info ids i s =
      (case r of
         Some e \<Rightarrow> (m', print (BatchError i (i + 100) e) w2)
       | None \<Rightarrow> (m', if i + 100 < length ids then sleep 2 w2 else w2))"
    using Inr st by (simp add: batch_step_def Let_def w1_def[symmetric] split: option.splits)
  have "\<exists>evs. trace (snd (batch_step reddit_info ids i s))
         = trace (snd s) @ Info (take 100 (drop i ids)) # evs"
    unfolding bs using t by (cases r) (simp_all add: sleep_def print_def emit_def)
  then obtain evs where 3: "trace (snd (batch_step reddit_info ids i s))
         = trace (snd s) @ Info (take 100 (drop i ids)) # evs" by blast
  from Inr 1 2 3 show ?thesis by (rule yielded)
qed


lemma batch_step_grows:
  "\<exists>evs. trace (snd (batch_step reddit_info ids i s)) = trace (snd s) @ evs"
  by (cases rule: batch_step_cases[of reddit_info i ids s]) auto

lemma batch_loop_grows:
  "\<exists>evs. trace (snd (batch_loop reddit_info ids i s)) = trace (snd s) @ evs"
proof (induction reddit_info ids i s rule: batch_loop.induct)
  case (1 reddit_info ids i s)
  show ?case
  proof (cases "i < length ids")
    case True
    from "1.IH"[OF True] obtain evs where
      "trace (snd (batch_loop reddit_info ids (i + 100) (batch_step reddit_info ids i s)))
         = trace (snd (batch_step reddit_info ids i s)) @ evs" by blast
    moreover from batch_step_grows obtain evs' where
      "trace (snd (batch_step reddit_info ids i s)) = trace (snd s) @ evs'" by blast
    ultimately show ?thesis using True by (simp add: batch_loop.simps)
  next
    case False
    then show ?thesis by (simp add: batch_loop.simps)
  qed
qed

lemma next_offset:
  fixes i j :: nat
  assumes "i < j" "(j - i) mod 100 = 0"
  shows "i + 100 \<le> j \<and> (j - (i + 100)) mod 100 = 0"
proof -
  from assms(2) obtain q where q: "j - i = 100 * q" by (auto simp: mod_eq_0_iff_dvd)
  with assms(1) have "q \<noteq> 0" by (cases q) auto
  then obtain q' where q': "q = Suc q'" by (cases q) auto
  from q q' assms(1) have j: "j = i + 100 + 100 * q'" by simp
  then show ?thesis by simp
qed

lemma prev_offset:
  fixes i j :: nat
  assumes "i + 100 \<le> j" "(j - (i + 100)) mod 100 = 0"
  shows "(j - i) mod 100 = 0"
proof -
  from assms(2) obtain q where q: "j - (i + 100) = 100 * q" by (auto simp: mod_eq_0_iff_dvd)
  from assms(1) have "j - i = (j - (i + 100)) + 100" by linarith
  then have "j - i = 100 * q + 100" unfolding q .
  then show ?thesis by simp
qed

lemma batch_loop_logs:
  "i \<le> j \<Longrightarrow> (j - i) mod 100 = 0 \<Longrightarrow> j < length ids \<Longrightarrow>
   reddit_info j (take 100 (drop j ids)) = Inl e \<Longrightarrow>
   \<exists>evs. trace (snd (batch_loop reddit_info ids i s)) = trace (snd s) @ evs
         \<and> Print (BatchError j (j + 100) e) \<in> set evs"
proof (induction reddit_info ids i s rule: batch_loop.induct)
  case (1 reddit_info ids i s)
  from "1.prems" have lt: "i < length ids" by simp
  then have unf: "batch_loop reddit_info ids i s
      = batch_loop reddit_info ids (i + 100) (batch_step reddit_info ids i s)"
    by (simp add: batch_loop.simps)
  show ?case
  proof (cases "i = j")
    case True
    have "trace (snd (batch_step reddit_info ids i s))
         = trace (snd s) @ [Info (take 100 (drop i ids)), Print (BatchError i (i + 100) e)]"
      using "1.prems"(4) True
      by (cases rule: batch_step_cases[of reddit_info i ids s]) simp_all
    moreover from batch_loop_grows obtain evs where
      "trace (snd (batch_loop reddit_info ids (i + 100) (batch_step reddit_info ids i s)))
         = trace (snd (batch_step reddit_info ids i s)) @ evs" by blast
    ultimately show ?thesis unfolding unf using True by simp
  next
    case False
    with "1.prems"(1) have "i < j" by simp
    from next_offset[OF this "1.prems"(2)]
    have "i + 100 \<le> j" "(j - (i + 100)) mod 100 = 0" by simp_all
    from "1.IH"[OF lt this "1.prems"(3,4)] obtain evs where
      e: "trace (snd (batch_loop reddit_info ids (i + 100) (batch_step reddit_info ids i s)))
         = trace (snd (batch_step reddit_info ids i s)) @ evs"
      "Print (BatchError j (j + 100) e) \<in> set evs" by blast
    from batch_step_grows obtain evs' where
      "trace (snd (batch_step reddit_info ids i s)) = trace (snd s) @ evs'" by blast
    with e show ?thesis unfolding unf by auto
  qed
qed

lemma batch_step_provenance:
  assumes "DAList.lookup (fst (batch_step reddit_info ids i s)) k = Some st"
  shows "DAList.lookup (fst s) k = Some st \<or>
     (\<exists>posts p t. reddit_info i (take 100 (drop i ids)) = Inr posts \<and> p \<in> set posts
        \<and> post_status p t = Inr st \<and> submission_fullname p = k)"
proof (cases rule: batch_step_cases[of reddit_info i ids s])
  case (raised e)
  with assms show ?thesis by simp
next
  case (yielded posts w1 evs)
  from assms[unfolded yielded(2)] store_posts_provenance[of posts "fst s" w1 k st] yielded(1)
  show ?thesis by blast
qed

lemma batch_step_keeps:
  assumes "DAList.lookup (fst s) k \<noteq> None"
  shows "DAList.lookup (fst (batch_step reddit_info ids i s)) k \<noteq> None"
proof (cases rule: batch_step_cases[of reddit_info i ids s])
  case (raised e)
  with assms show ?thesis by simp
next
  case (yielded posts w1 evs)
  from store_posts_keeps[OF assms, of posts w1] show ?thesis unfolding yielded(2) .
qed

lemma batch_step_stores:
  assumes "batch_ok reddit_info ids i" "reddit_info i (take 100 (drop i ids)) = Inr posts"
    "p \<in> set posts"
  shows "DAList.lookup (fst (batch_step reddit_info ids i s)) (submission_fullname p) \<noteq> None"
proof (cases rule: batch_step_cases[of reddit_info i ids s])
  case (raised e)
  with assms(2) show ?thesis by simp
next
  case (yielded posts' w1 evs)
  with assms have "fst (store_posts posts (fst s) w1) = None" "posts' = posts" by simp_all
  from store_posts_stores[OF this(1) assms(3)] yielded(2) this(2) show ?thesis by simp
qed

lemma batch_loop_provenance:
  "DAList.lookup (fst (batch_loop reddit_info ids i s)) k = Some st \<Longrightarrow>
     DAList.lookup (fst s) k = Some st \<or>
     (\<exists>j posts p t. i \<le> j \<and> j < length ids \<and> (j - i) mod 100 = 0
        \<and> reddit_info j (take 100 (drop j ids)) = Inr posts \<and> p \<in> set posts
        \<and> post_status p t = Inr st \<and> submission_fullname p = k)"
proof (induction reddit_info ids i s rule: batch_loop.induct)
  case (1 reddit_info ids i s)
  show ?case
  proof (cases "i < length ids")
    case True
    with "1.prems" have
      "DAList.lookup (fst (batch_loop reddit_info ids (i + 100) (batch_step reddit_info ids i s))) k
         = Some st"
      by (simp add: batch_loop.simps)
    from "1.IH"[OF True this] show ?thesis
    proof
      assume "DAList.lookup (fst (batch_step reddit_info ids i s)) k = Some st"
      from batch_step_provenance[OF this] show ?thesis
      proof
        assume "DAList.lookup (fst s) k = Some st"
        then show ?thesis by simp
      next
        assume "\<exists>posts p t. reddit_info i (take 100 (drop i ids)) = Inr posts \<and> p \<in> set posts
          \<and> post_status p t = Inr st \<and> submission_fullname p = k"
        then obtain posts p t where "reddit_info i (take 100 (drop i ids)) = Inr posts"
          "p \<in> set posts" "post_status p t = Inr st" "submission_fullname p = k" by blast
        with True have c: "i \<le> i \<and> i < length ids \<and> (i - i) mod 100 = 0
          \<and> reddit_info i (take 100 (drop i ids)) = Inr posts \<and> p \<in> set posts
          \<and> post_status p t = Inr st \<and> submission_fullname p = k" by simp
        show ?thesis
          by (rule disjI2, rule exI[of _ i], rule exI[of _ posts], rule exI[of _ p],
              rule exI[of _ t]) (rule c)
      qed
    next
      assume "\<exists>j posts p t. i + 100 \<le> j \<and> j < length ids \<and> (j - (i + 100)) mod 100 = 0
        \<and> reddit_info j (take 100 (drop j ids)) = Inr posts \<and> p \<in> set posts
        \<and> post_status p t = Inr st \<and> submission_fullname p = k"
      then obtain j posts p t where j: "i + 100 \<le> j" "j < length ids"
        "(j - (i + 100)) mod 100 = 0" "reddit_info j (take 100 (drop j ids)) = Inr posts"
        "p \<in> set posts" "post_status p t = Inr st" "submission_fullname p = k" by auto
      from j(1) prev_offset[OF j(1,3)] have "i \<le> j" "(j - i) mod 100 = 0" by simp_all
      with j have c: "i \<le> j \<and> j < length ids \<and> (j - i) mod 100 = 0
        \<and> reddit_info j (take 100 (drop j ids)) = Inr posts \<and> p \<in> set posts
        \<and> post_status p t = Inr st \<and> submission_fullname p = k" by simp
      show ?thesis
        by (rule disjI2, rule exI[of _ j], rule exI[of _ posts], rule exI[of _ p],
            rule exI[of _ t]) (rule c)
    qed
  next
    case False
    with "1.prems" show ?thesis by (simp add: batch_loop.simps)
  qed
qed


lemma batch_loop_keeps:
  "DAList.lookup (fst s) k \<noteq> None \<Longrightarrow>
   DAList.lookup (fst (batch_loop reddit_info ids i s)) k \<noteq> None"
proof (induction reddit_info ids i s rule: batch_loop.induct)
  case (1 reddit_info ids i s)
  show ?case
  proof (cases "i < length ids")
    case True
    from "1.IH"[OF True batch_step_keeps[OF "1.prems"]] True show ?thesis
      by (simp add: batch_loop.simps)
  next
    case False
    with "1.prems" show ?thesis by (simp add: batch_loop.simps)
  qed
qed

lemma batch_loop_stores:
  "i \<le> j \<Longrightarrow> (j - i) mod 100 = 0 \<Longrightarrow> j < length ids \<Longrightarrow> batch_ok reddit_info ids j \<Longrightarrow>
   reddit_info j (take 100 (drop j ids)) = Inr posts \<Longrightarrow> p \<in> set posts \<Longrightarrow>
   DAList.lookup (fst (batch_loop reddit_info ids i s)) (submission_fullname p) \<noteq> None"
proof (induction reddit_info ids i s rule: batch_loop.induct)
  case (1 reddit_info ids i s)
  from "1.prems" have lt: "i < length ids" by simp
  then have unf: "batch_loop reddit_info ids i s
      = batch_loop reddit_info ids (i + 100) (batch_step reddit_info ids i s)"
    by (simp add: batch_loop.simps)
  show ?case
  proof (cases "i = j")
    case True
    from batch_step_stores[of reddit_info ids i posts p s] "1.prems"(4,5,6) True
    have "DAList.lookup (fst (batch_step reddit_info ids i s)) (submission_fullname p) \<noteq> None"
      by simp
    from batch_loop_keeps[OF this] show ?thesis unfolding unf .
  next
    case False
    with "1.prems"(1) have "i < j" by simp
    from next_offset[OF this "1.prems"(2)]
    have "i + 100 \<le> j" "(j - (i + 100)) mod 100 = 0" by simp_all
    from "1.IH"[OF lt this "1.prems"(3,4,5,6)] show ?thesis unfolding unf .
  qed
qed

lemma slice_mem:
  assumes "x \<in> set (take 100 (drop j ids))"
  shows "\<exists>n. j \<le> n \<and> n < j + 100 \<and> n < length ids \<and> ids ! n = x"
proof -
  from assms obtain m where m: "m < length (take 100 (drop j ids))"
    "take 100 (drop j ids) ! m = x" by (auto simp: in_set_conv_nth)
  from m(1) have "m < 100" "m < length ids - j" by simp_all
  then have b: "m < 100" "j + m < length ids" by linarith+
  with m(2) have "ids ! (j + m) = x" by simp
  with b show ?thesis by (intro exI[of _ "j + m"]) simp
qed

lemma same_slice:
  fixes j1 j2 n :: nat
  assumes "j1 mod 100 = 0" "j2 mod 100 = 0" "j1 \<le> n" "n < j1 + 100" "j2 \<le> n" "n < j2 + 100"
  shows "j1 = j2"
proof -
  from assms(1) obtain a where a: "j1 = 100 * a" by (auto simp: mod_eq_0_iff_dvd)
  from assms(2) obtain b where b: "j2 = 100 * b" by (auto simp: mod_eq_0_iff_dvd)
  from assms(3-6) have "a = b" unfolding a b by linarith
  then show ?thesis by (simp add: a b)
qed

lemma slices_disjoint:
  assumes "distinct ids" "j1 mod 100 = 0" "j2 mod 100 = 0"
    "x \<in> set (take 100 (drop j1 ids))" "x \<in> set (take 100 (drop j2 ids))"
  shows "j1 = j2"
proof -
  from slice_mem[OF assms(4)] obtain n1 where
    n1: "j1 \<le> n1" "n1 < j1 + 100" "n1 < length ids" "ids ! n1 = x" by blast
  from slice_mem[OF assms(5)] obtain n2 where
    n2: "j2 \<le> n2" "n2 < j2 + 100" "n2 < length ids" "ids ! n2 = x" by blast
  from nth_eq_iff_index_eq[OF assms(1) n1(3) n2(3)] n1(4) n2(4) have "n1 = n2" by simp
  with n1 n2 same_slice[OF assms(2,3), of n1] show ?thesis by simp
qed

lemma get_final_post_status_map:
  "fst (get_final_post_status reddit_info ids w)
     = fst (batch_loop reddit_info ids 0 (DAList.empty, print (FetchingStatus (length ids)) w))"
  by (simp add: get_final_post_status_def Let_def split: prod.splits)

lemma get_final_post_status_trace:
  "\<exists>m. trace (snd (get_final_post_status reddit_info ids w))
     = trace (snd (batch_loop reddit_info ids 0
         (DAList.empty, print (FetchingStatus (length ids)) w))) @ [Print m]"
  by (simp add: get_final_post_status_def Let_def print_def emit_def split: prod.splits)

lemma get_final_post_status_info_calls:
  "info_calls (trace (snd (get_final_post_status reddit_info ids w))) =
     info_calls (trace w) @
       map (\<lambda>k. take 100 (drop (100 * k) ids)) [0..<(length ids + 99) div 100]"
proof -
  have "info_calls (trace (snd (get_final_post_status reddit_info ids w)))
      = info_calls (paced_calls (trace (snd (get_final_post_status reddit_info ids w))))"
    by (simp only: info_calls_paced)
  also have "\<dots> = info_calls (trace w) @
       map (\<lambda>k. take 100 (drop (100 * k) ids)) [0..<(length ids + 99) div 100]"
    unfolding get_final_post_status_paced
    by (simp only: info_calls_append info_calls_paced info_calls_schedule)
  finally show ?thesis .
qed

lemma get_final_post_status_logs:
  assumes "i < length ids" "i mod 100 = 0" "reddit_info i (take 100 (drop i ids)) = Inl e"
  shows "\<exists>evs. trace (snd (get_final_post_status reddit_info ids w)) = trace w @ evs
           \<and> Print (BatchError i (i + 100) e) \<in> set evs"
proof -
  define s where "s = (DAList.empty :: status_map, print (FetchingStatus (length ids)) w)"
  from batch_loop_logs[of 0 i ids reddit_info e s] assms obtain evs where
    evs: "trace (snd (batch_loop reddit_info ids 0 s)) = trace (snd s) @ evs"
    "Print (BatchError i (i + 100) e) \<in> set evs" by auto
  from get_final_post_status_trace[of reddit_info ids w] obtain m where
    "trace (snd (get_final_post_status reddit_info ids w))
       = trace (snd (batch_loop reddit_info ids 0 s)) @ [Print m]"
    unfolding s_def by blast
  with evs(1) have "trace (snd (get_final_post_status reddit_info ids w))
      = trace w @ (Print (FetchingStatus (length ids)) # evs @ [Print m])"
    by (simp add: s_def print_def emit_def)
  moreover from evs(2)
  have "Print (BatchError i (i + 100) e) \<in> set (Print (FetchingStatus (length ids)) # evs @ [Print m])"
    by simp
  ultimately show ?thesis by blast
qed

lemma get_final_post_status_provenance:
  assumes "DAList.lookup (fst (get_final_post_status reddit_info ids w)) k = Some st"
  shows "\<exists>j posts p t. j < length ids \<and> j mod 100 = 0
        \<and> reddit_info j (take 100 (drop j ids)) = Inr posts \<and> p \<in> set posts
        \<and> post_status p t = Inr st \<and> submission_fullname p = k"
proof -
  define s where "s = (DAList.empty :: status_map, print (FetchingStatus (length ids)) w)"
  from assms have "DAList.lookup (fst (batch_loop reddit_info ids 0 s)) k = Some st"
    by (simp add: get_final_post_status_map s_def)
  from batch_loop_provenance[OF this] show ?thesis by (simp add: s_def)
qed

lemma get_final_post_status_absent:
  assumes "distinct ids"
    and "\<forall>j posts. reddit_info j (take 100 (drop j ids)) = Inr posts \<longrightarrow>
           submission_fullname ` set posts \<subseteq> set (take 100 (drop j ids))"
    and "i mod 100 = 0" "reddit_info i (take 100 (drop i ids)) = Inl e"
    and "x \<in> set (take 100 (drop i ids))"
  shows "DAList.lookup (fst (get_final_post_status reddit_info ids w)) x = None"
proof (rule ccontr)
  assume "DAList.lookup (fst (get_final_post_status reddit_info ids w)) x \<noteq> None"
  then obtain st where
    "DAList.lookup (fst (get_final_post_status reddit_info ids w)) x = Some st" by auto
  from get_final_post_status_provenance[OF this] obtain j where
    "\<exists>posts p t. j < length ids \<and> j mod 100 = 0
        \<and> reddit_info j (take 100 (drop j ids)) = Inr posts \<and> p \<in> set posts
        \<and> post_status p t = Inr st \<and> submission_fullname p = x" ..
  then obtain posts where
    "\<exists>p t. j < length ids \<and> j mod 100 = 0
        \<and> reddit_info j (take 100 (drop j ids)) = Inr posts \<and> p \<in> set posts
        \<and> post_status p t = Inr st \<and> submission_fullname p = x" ..
  then obtain p where
    "\<exists>t. j < length ids \<and> j mod 100 = 0
        \<and> reddit_info j (take 100 (drop j ids)) = Inr posts \<and> p \<in> set posts
        \<and> post_status p t = Inr st \<and> submission_fullname p = x" ..
  then obtain t where
    c: "j < length ids \<and> j mod 100 = 0
        \<and> reddit_info j (take 100 (drop j ids)) = Inr posts \<and> p \<in> set posts
        \<and> post_status p t = Inr st \<and> submission_fullname p = x" ..
  from c have j: "j mod 100 = 0" "reddit_info j (take 100 (drop j ids)) = Inr posts"
    "p \<in> set posts" "submission_fullname p = x" by simp_all
  from assms(2) j(2,3,4) have "x \<in> set (take 100 (drop j ids))" by blast
  from slices_disjoint[OF assms(1) j(1) assms(3) this assms(5)] have "j = i" .
  with j(2) assms(4) show False by simp
qed

lemma get_final_post_status_present:
  assumes "j < length ids" "j mod 100 = 0" "batch_ok reddit_info ids j"
    "reddit_info j (take 100 (drop j ids)) = Inr posts" "p \<in> set posts"
  shows "DAList.lookup (fst (get_final_post_status reddit_info ids w)) (submission_fullname p)
     \<noteq> None"
  unfolding get_final_post_status_map
  by (rule batch_loop_stores[OF _ _ assms(1,3,4,5)]) (use assms(2) in simp_all)


lemma post_status_flags:
  "post_status post t = Inr st \<Longrightarrow>
     is_removed_inferred st =
       (is_removed_official st \<or> is_removed_content st
        \<or> submission_is_robot_indexable post = Val False) \<and>
     is_deleted st = (is_deleted_author st \<or> is_deleted_content st)"
  by (auto simp: post_status_def bind_exn_def Let_def hasattr_def split: sum.splits)

text \<open>
  Claim C4. For every post that Pass 2 examines, \<open>is_removed_inferred\<close> is the
  disjunction of \<open>is_removed_official\<close>, \<open>is_removed_content\<close> and the post having a
  discoverability flag that is false; so official removal implies inferred removal;
  and \<open>is_deleted\<close> is the disjunction of \<open>is_deleted_author\<close> and \<open>is_deleted_content\<close>.
  The same relations hold of every entry of the mapping \<open>get_final_post_status\<close> returns.
\<close>

theorem removal_and_deletion_flags:
  "(post_status post t = Inr st \<longrightarrow>
      is_removed_inferred st =
        (is_removed_official st \<or> is_removed_content st
         \<or> submission_is_robot_indexable post = Val False) \<and>
      (is_removed_official st \<longrightarrow> is_removed_inferred st) \<and>
      is_deleted st = (is_deleted_author st \<or> is_deleted_content st)) \<and>
   (get_final_post_status reddit_info ids w = (status_map, w')
      \<and> DAList.lookup status_map k = Some st' \<longrightarrow>
      (is_removed_official st' \<longrightarrow> is_removed_inferred st') \<and>
      (is_removed_content st' \<longrightarrow> is_removed_inferred st') \<and>
      is_deleted st' = (is_deleted_author st' \<or> is_deleted_content st'))"
proof -
  have 1: "is_removed_inferred st =
        (is_removed_official st \<or> is_removed_content st
         \<or> submission_is_robot_indexable post = Val False) \<and>
      (is_removed_official st \<longrightarrow> is_removed_inferred st) \<and>
      is_deleted st = (is_deleted_author st \<or> is_deleted_content st)"
    if "post_status post t = Inr st"
    using post_status_flags[OF that] by simp
  have 2: "(is_removed_official st' \<longrightarrow> is_removed_inferred st') \<and>
      (is_removed_content st' \<longrightarrow> is_removed_inferred st') \<and>
      is_deleted st' = (is_deleted_author st' \<or> is_deleted_content st')"
    if a: "get_final_post_status reddit_info ids w = (status_map, w')
      \<and> DAList.lookup status_map k = Some st'"
  proof -
    from a have "DAList.lookup (fst (get_final_post_status reddit_info ids w)) k = Some st'"
      by simp
    from get_final_post_status_provenance[OF this] obtain p t' where
      "post_status p t' = Inr st'" by auto
    from post_status_flags[OF this] show ?thesis by simp
  qed
  from 1 2 show ?thesis by blast
qed

lemmas status_defs = post_status_def removed_content_def bind_exn_def attr_def
  getattr_default_def hasattr_def Let_def
lemmas scenario_defs = ex_scenario_info_def ex_scenario_ids_def ex_removed_post_def
  ex_orphan_post_def ex_post_def ex_env_def ex_alice_def ex_status_a_def ex_status_c_def

lemma scenario_status:
  "fst (get_final_post_status ex_scenario_info ex_scenario_ids ex_env) =
     DAList.update ''t3_c'' ex_status_c (DAList.update ''t3_a'' ex_status_a DAList.empty)"
  by (simp add: get_final_post_status_def batch_loop.simps batch_step_def scenario_defs
      status_defs now_def emit_def print_def sleep_def)

theorem removal_and_deletion_flags_witness:
  "post_status ex_removed_post 1700003601000000 = Inr ex_status_c \<and>
   is_removed_official ex_status_c \<and> is_removed_inferred ex_status_c \<and>
   is_deleted ex_status_c \<and> is_deleted_author ex_status_c \<and>
   DAList.lookup (fst (get_final_post_status ex_scenario_info ex_scenario_ids ex_env)) ''t3_c''
     = Some ex_status_c"
proof -
  have l: "DAList.lookup (fst (get_final_post_status ex_scenario_info ex_scenario_ids ex_env))
      ''t3_c'' = Some ex_status_c"
    unfolding scenario_status by simp
  have r: "post_status ex_removed_post 1700003601000000 = Inr ex_status_c"
    by (simp add: status_defs scenario_defs)
  have o: "is_removed_official ex_status_c" "is_deleted_author ex_status_c"
    by (simp_all add: ex_status_c_def)
  from removal_and_deletion_flags[of ex_removed_post 1700003601000000 ex_status_c
      ex_scenario_info ex_scenario_ids ex_env
      "fst (get_final_post_status ex_scenario_info ex_scenario_ids ex_env)"
      "snd (get_final_post_status ex_scenario_info ex_scenario_ids ex_env)" "''t3_c''"
      ex_status_c] r l o
  show ?thesis by simp
qed


lemma get_final_post_status_other_batch:
  assumes "DAList.lookup (fst (get_final_post_status reddit_info ids w)) x = Some st"
    and "reddit_info i (take 100 (drop i ids)) = Inl e"
  shows "\<exists>j posts p t. j < length ids \<and> j mod 100 = 0 \<and> j \<noteq> i
        \<and> reddit_info j (take 100 (drop j ids)) = Inr posts \<and> p \<in> set posts
        \<and> post_status p t = Inr st \<and> submission_fullname p = x"
proof -
  from get_final_post_status_provenance[OF assms(1)] obtain j where
    "\<exists>posts p t. j < length ids \<and> j mod 100 = 0
        \<and> reddit_info j (take 100 (drop j ids)) = Inr posts \<and> p \<in> set posts
        \<and> post_status p t = Inr st \<and> submission_fullname p = x" ..
  then obtain posts where
    "\<exists>p t. j < length ids \<and> j mod 100 = 0
        \<and> reddit_info j (take 100 (drop j ids)) = Inr posts \<and> p \<in> set posts
        \<and> post_status p t = Inr st \<and> submission_fullname p = x" ..
  then obtain p where
    "\<exists>t. j < length ids \<and> j mod 100 = 0
        \<and> reddit_info j (take 100 (drop j ids)) = Inr posts \<and> p \<in> set posts
        \<and> post_status p t = Inr st \<and> submission_fullname p = x" ..
  then obtain t where
    c: "j < length ids \<and> j mod 100 = 0
        \<and> reddit_info j (take 100 (drop j ids)) = Inr posts \<and> p \<in> set posts
        \<and> post_status p t = Inr st \<and> submission_fullname p = x" ..
  from c assms(2) have "j \<noteq> i" by auto
  with c have "j < length ids \<and> j mod 100 = 0 \<and> j \<noteq> i
        \<and> reddit_info j (take 100 (drop j ids)) = Inr posts \<and> p \<in> set posts
        \<and> post_status p t = Inr st \<and> submission_fullname p = x" by simp
  then show ?thesis
    by (intro exI[of _ j] exI[of _ posts] exI[of _ p] exI[of _ t])
qed

text \<open>
  Claim C5, as the code has it. When the bulk lookup raises for the batch at offset \<open>i\<close>,
  the exception is caught and logged with the range \<open>i\<close> to \<open>i + 100\<close>, and every batch
  is still requested. That batch stores nothing: every entry of the result is the status
  of a post that the lookup of another batch yielded, stored under that post's fullname.
  So the identifiers of the failed batch are absent from the result when the identifiers
  are distinct and each lookup yields only posts it was asked for; an identifier that
  another batch repeats can stay a key. The posts of every batch whose round completes
  are keys of the result.
\<close>

theorem failed_batch_is_skipped:
  "get_final_post_status reddit_info ids w = (status_map, w') \<Longrightarrow>
   i < length ids \<Longrightarrow> i mod 100 = 0 \<Longrightarrow>
   reddit_info i (take 100 (drop i ids)) = Inl e \<Longrightarrow>
     (\<exists>evs. trace w' = trace w @ evs \<and> Print (BatchError i (i + 100) e) \<in> set evs) \<and>
     info_calls (trace w') =
       info_calls (trace w) @
         map (\<lambda>k. take 100 (drop (100 * k) ids)) [0..<(length ids + 99) div 100] \<and>
     (\<forall>x st. DAList.lookup status_map x = Some st \<longrightarrow>
        (\<exists>j posts p t. j < length ids \<and> j mod 100 = 0 \<and> j \<noteq> i
           \<and> reddit_info j (take 100 (drop j ids)) = Inr posts \<and> p \<in> set posts
           \<and> post_status p t = Inr st \<and> submission_fullname p = x)) \<and>
     (distinct ids \<and>
      (\<forall>j posts. reddit_info j (take 100 (drop j ids)) = Inr posts \<longrightarrow>
         submission_fullname ` set posts \<subseteq> set (take 100 (drop j ids))) \<longrightarrow>
      (\<forall>x \<in> set (take 100 (drop i ids)). DAList.lookup status_map x = None)) \<and>
     (\<forall>j posts p. j < length ids \<and> j mod 100 = 0 \<and> batch_ok reddit_info ids j
        \<and> reddit_info j (take 100 (drop j ids)) = Inr posts \<and> p \<in> set posts \<longrightarrow>
        DAList.lookup status_map (submission_fullname p) \<noteq> None)"
proof -
  assume a: "get_final_post_status reddit_info ids w = (status_map, w')"
    and i: "i < length ids" "i mod 100 = 0" "reddit_info i (take 100 (drop i ids)) = Inl e"
  from a have m: "status_map = fst (get_final_post_status reddit_info ids w)"
    and w': "w' = snd (get_final_post_status reddit_info ids w)" by simp_all
  have 1: "\<exists>evs. trace w' = trace w @ evs \<and> Print (BatchError i (i + 100) e) \<in> set evs"
    unfolding w' using i by (rule get_final_post_status_logs[of i ids reddit_info e w])
  have 2: "info_calls (trace w') =
       info_calls (trace w) @
         map (\<lambda>k. take 100 (drop (100 * k) ids)) [0..<(length ids + 99) div 100]"
    unfolding w' by (rule get_final_post_status_info_calls)
  have 3: "\<forall>x st. DAList.lookup status_map x = Some st \<longrightarrow>
        (\<exists>j posts p t. j < length ids \<and> j mod 100 = 0 \<and> j \<noteq> i
           \<and> reddit_info j (take 100 (drop j ids)) = Inr posts \<and> p \<in> set posts
           \<and> post_status p t = Inr st \<and> submission_fullname p = x)"
    unfolding m
    by (intro allI impI)
      (rule get_final_post_status_other_batch[where reddit_info = reddit_info and ids = ids
          and w = w and i = i and e = e, OF _ i(3)])
  have 4: "\<forall>x \<in> set (take 100 (drop i ids)). DAList.lookup status_map x = None"
    if "distinct ids \<and>
      (\<forall>j posts. reddit_info j (take 100 (drop j ids)) = Inr posts \<longrightarrow>
         submission_fullname ` set posts \<subseteq> set (take 100 (drop j ids)))"
  proof
    fix x assume "x \<in> set (take 100 (drop i ids))"
    with that i(2,3) show "DAList.lookup status_map x = None"
      unfolding m by (intro get_final_post_status_absent[of ids reddit_info i e x w]) simp_all
  qed
  have 5: "DAList.lookup status_map (submission_fullname p) \<noteq> None"
    if "j < length ids \<and> j mod 100 = 0 \<and> batch_ok reddit_info ids j
        \<and> reddit_info j (take 100 (drop j ids)) = Inr posts \<and> p \<in> set posts" for j posts p
    unfolding m using that
    by (intro get_final_post_status_present[of j ids reddit_info posts p w]) simp_all
  have c5: "\<forall>j posts p. j < length ids \<and> j mod 100 = 0 \<and> batch_ok reddit_info ids j
        \<and> reddit_info j (take 100 (drop j ids)) = Inr posts \<and> p \<in> set posts \<longrightarrow>
        DAList.lookup status_map (submission_fullname p) \<noteq> None"
    by (intro allI impI) (rule 5)
  have c4: "distinct ids \<and>
      (\<forall>j posts. reddit_info j (take 100 (drop j ids)) = Inr posts \<longrightarrow>
         submission_fullname ` set posts \<subseteq> set (take 100 (drop j ids))) \<longrightarrow>
      (\<forall>x \<in> set (take 100 (drop i ids)). DAList.lookup status_map x = None)"
    by (rule impI) (rule 4)
  show ?thesis
    by (rule conjI[OF 1], rule conjI[OF 2], rule conjI[OF 3], rule conjI[OF c4 c5])
qed

text \<open>
  The claim as the specification words it, the identifiers of a failed batch absent from
  the result, fails when an identifier of that batch is also in a batch that completes:
  of 201 copies of one identifier the second batch raises, and the identifier is a key.
\<close>

theorem failed_batch_identifier_present_counterexample:
  "100 < length ex_dup_ids \<and> (100::nat) mod 100 = 0 \<and>
   ex_dup_info 100 (take 100 (drop 100 ex_dup_ids)) = Inl OtherException \<and>
   ''t3_x'' \<in> set (take 100 (drop 100 ex_dup_ids)) \<and>
   DAList.lookup (fst (get_final_post_status ex_dup_info ex_dup_ids ex_env)) ''t3_x'' \<noteq> None"
proof -
  have ok: "batch_ok ex_dup_info ex_dup_ids 0"
    by (simp add: batch_ok_def ex_dup_info_def ex_info_ok_def list_all_iff status_ok_ex_found)
  have r: "ex_dup_info 0 (take 100 (drop 0 ex_dup_ids)) = Inr (map ex_found (replicate 100 ''t3_x''))"
    by (simp add: ex_dup_info_def ex_info_ok_def ex_dup_ids_def)
  have p: "ex_found ''t3_x'' \<in> set (map ex_found (replicate 100 ''t3_x''))" by simp
  have l: "0 < length ex_dup_ids" "(0::nat) mod 100 = 0" by (simp_all add: ex_dup_ids_def)
  from get_final_post_status_present[OF l ok r p, of ex_env]
  have "DAList.lookup (fst (get_final_post_status ex_dup_info ex_dup_ids ex_env)) ''t3_x''
      \<noteq> None"
    by (simp add: ex_found_def)
  moreover have "100 < length ex_dup_ids" "(100::nat) mod 100 = 0"
    "ex_dup_info 100 (take 100 (drop 100 ex_dup_ids)) = Inl OtherException"
    "''t3_x'' \<in> set (take 100 (drop 100 ex_dup_ids))"
    by (simp_all add: ex_dup_ids_def ex_dup_info_def)
  ultimately show ?thesis by simp
qed

lemma distinct_ex_ids: "distinct ex_ids"
  by (simp add: ex_ids_def distinct_map inj_on_def)

lemma ex_info_contract:
  "\<forall>j posts. ex_info j (take 100 (drop j ex_ids)) = Inr posts \<longrightarrow>
     submission_fullname ` set posts \<subseteq> set (take 100 (drop j ex_ids))"
  by (auto simp: ex_info_def ex_info_ok_def ex_found_def split: if_splits)

lemma first_ex_id: "''t3_'' \<in> set (take 100 (drop 0 ex_ids))"
proof -
  have "take 100 (drop 0 ex_ids) ! 0 = ''t3_''"
    by (simp add: ex_ids_def)
  moreover have "0 < length (take 100 (drop 0 ex_ids))" by (simp add: length_ex_ids)
  ultimately show ?thesis by (metis nth_mem)
qed

lemma last_ex_id: "take 100 (drop 100 ex_ids) = [''t3_'' @ replicate 100 CHR ''a'']"
proof -
  have "drop 100 ex_ids = map (\<lambda>n. ''t3_'' @ replicate n CHR ''a'') [100..<101]"
    by (simp add: ex_ids_def drop_map)
  also have "[100..<101] = [100::nat]" by (simp add: upt_rec)
  finally show ?thesis by simp
qed

theorem failed_batch_is_skipped_witness:
  "0 < length ex_ids \<and> (0::nat) mod 100 = 0 \<and>
   ex_info 0 (take 100 (drop 0 ex_ids)) = Inl OtherException \<and>
   distinct ex_ids \<and>
   (\<exists>evs. trace (snd (get_final_post_status ex_info ex_ids ex_env)) = trace ex_env @ evs
      \<and> Print (BatchError 0 100 OtherException) \<in> set evs) \<and>
   map length (info_calls (trace (snd (get_final_post_status ex_info ex_ids ex_env))))
     = [100, 1] \<and>
   DAList.lookup (fst (get_final_post_status ex_info ex_ids ex_env)) ''t3_'' = None \<and>
   DAList.lookup (fst (get_final_post_status ex_info ex_ids ex_env))
     (''t3_'' @ replicate 100 CHR ''a'') \<noteq> None \<and>
   (\<exists>j posts p t. j < length ex_ids \<and> j mod 100 = 0 \<and> j \<noteq> 0
      \<and> ex_info j (take 100 (drop j ex_ids)) = Inr posts \<and> p \<in> set posts
      \<and> post_status p t
          = Inr (the (DAList.lookup (fst (get_final_post_status ex_info ex_ids ex_env))
                   (''t3_'' @ replicate 100 CHR ''a'')))
      \<and> submission_fullname p = ''t3_'' @ replicate 100 CHR ''a'')"
proof -
  have h: "get_final_post_status ex_info ex_ids ex_env
      = (fst (get_final_post_status ex_info ex_ids ex_env),
         snd (get_final_post_status ex_info ex_ids ex_env))"
    "0 < length ex_ids" "(0::nat) mod 100 = 0"
    "ex_info 0 (take 100 (drop 0 ex_ids)) = Inl OtherException"
    by (simp_all add: length_ex_ids ex_info_def)
  note t = failed_batch_is_skipped[of ex_info ex_ids ex_env
      "fst (get_final_post_status ex_info ex_ids ex_env)"
      "snd (get_final_post_status ex_info ex_ids ex_env)" 0 OtherException, OF h]
  from t have 1: "\<exists>evs. trace (snd (get_final_post_status ex_info ex_ids ex_env))
      = trace ex_env @ evs \<and> Print (BatchError 0 100 OtherException) \<in> set evs"
    by simp
  from t have "info_calls (trace (snd (get_final_post_status ex_info ex_ids ex_env)))
      = [take 100 (drop 0 ex_ids), take 100 (drop 100 ex_ids)]"
    by (simp add: length_ex_ids upt_2 ex_env_def)
  then have 2: "map length (info_calls (trace (snd (get_final_post_status ex_info ex_ids ex_env))))
      = [100, 1]"
    by (simp add: length_ex_ids)
  from t have c: "distinct ex_ids \<and>
      (\<forall>j posts. ex_info j (take 100 (drop j ex_ids)) = Inr posts \<longrightarrow>
         submission_fullname ` set posts \<subseteq> set (take 100 (drop j ex_ids))) \<longrightarrow>
      (\<forall>x \<in> set (take 100 (drop 0 ex_ids)).
         DAList.lookup (fst (get_final_post_status ex_info ex_ids ex_env)) x = None)"
    by (elim conjE)
  from c[rule_format, OF conjI[OF distinct_ex_ids ex_info_contract] first_ex_id]
  have 3: "DAList.lookup (fst (get_final_post_status ex_info ex_ids ex_env)) ''t3_'' = None" .
  have ok: "100 < length ex_ids \<and> (100::nat) mod 100 = 0 \<and> batch_ok ex_info ex_ids 100
      \<and> ex_info 100 (take 100 (drop 100 ex_ids))
          = Inr [ex_found (''t3_'' @ replicate 100 CHR ''a'')]
      \<and> ex_found (''t3_'' @ replicate 100 CHR ''a'')
          \<in> set [ex_found (''t3_'' @ replicate 100 CHR ''a'')]"
    by (simp add: length_ex_ids batch_ok_def ex_info_def ex_info_ok_def last_ex_id
        status_ok_ex_found)
  from t have "\<forall>j posts p. j < length ex_ids \<and> j mod 100 = 0 \<and> batch_ok ex_info ex_ids j
        \<and> ex_info j (take 100 (drop j ex_ids)) = Inr posts \<and> p \<in> set posts \<longrightarrow>
        DAList.lookup (fst (get_final_post_status ex_info ex_ids ex_env))
          (submission_fullname p) \<noteq> None"
    by (elim conjE)
  from this[rule_format, OF ok]
  have 4: "DAList.lookup (fst (get_final_post_status ex_info ex_ids ex_env))
     (''t3_'' @ replicate 100 CHR ''a'') \<noteq> None"
    by (simp add: ex_found_def)
  then have s: "DAList.lookup (fst (get_final_post_status ex_info ex_ids ex_env))
     (''t3_'' @ replicate 100 CHR ''a'')
     = Some (the (DAList.lookup (fst (get_final_post_status ex_info ex_ids ex_env))
                   (''t3_'' @ replicate 100 CHR ''a'')))"
    by simp
  from t have "\<forall>x st. DAList.lookup (fst (get_final_post_status ex_info ex_ids ex_env)) x
        = Some st \<longrightarrow>
        (\<exists>j posts p t. j < length ex_ids \<and> j mod 100 = 0 \<and> j \<noteq> 0
           \<and> ex_info j (take 100 (drop j ex_ids)) = Inr posts \<and> p \<in> set posts
           \<and> post_status p t = Inr st \<and> submission_fullname p = x)"
    by (elim conjE)
  from this[rule_format, OF s]
  have 5: "\<exists>j posts p t. j < length ex_ids \<and> j mod 100 = 0 \<and> j \<noteq> 0
      \<and> ex_info j (take 100 (drop j ex_ids)) = Inr posts \<and> p \<in> set posts
      \<and> post_status p t
          = Inr (the (DAList.lookup (fst (get_final_post_status ex_info ex_ids ex_env))
                   (''t3_'' @ replicate 100 CHR ''a'')))
      \<and> submission_fullname p = ''t3_'' @ replicate 100 CHR ''a''" .
  show ?thesis
    by (intro conjI h(2,3,4) distinct_ex_ids 1 2 3 4 5)
qed

section \<open>Properties of the cohort join\<close>

lemma filter_distinct_key:
  "distinct (map fst xs) \<Longrightarrow>
   filter (\<lambda>(k', b). k' = k) xs = (case map_of xs k of None \<Rightarrow> [] | Some b \<Rightarrow> [(k, b)])"
proof (induction xs)
  case Nil
  then show ?case by simp
next
  case (Cons x xs)
  obtain k' b where x: "x = (k', b)" by (cases x)
  show ?case
  proof (cases "k' = k")
    case True
    with Cons.prems x have "k \<notin> fst ` set xs" by simp
    then have n: "map_of xs k = None" by (simp add: map_of_eq_None_iff)
    with Cons.IH Cons.prems have "filter (\<lambda>(k', b). k' = k) xs = []" by simp
    with True x show ?thesis by simp
  next
    case False
    with Cons.IH Cons.prems x show ?thesis by simp
  qed
qed

lemma join_distinct:
  assumes "distinct (map fst right)"
  shows "join left right = map (\<lambda>(k, a). (k, a, map_of right k)) left"
proof -
  have "(case filter (\<lambda>(k', b). k' = k) right of
           [] \<Rightarrow> [(k, a, None)]
         | ms \<Rightarrow> map (\<lambda>(k', b). (k, a, Some b)) ms) = [(k, a, map_of right k)]" for k and a :: 'c
    unfolding filter_distinct_key[OF assms] by (simp split: option.splits)
  then show ?thesis
    by (induction left) (auto simp: join_def)
qed

lemma cohort_join_eq:
  "cohort_join df status_data
     = map (\<lambda>row. (row, DAList.lookup status_data (post_fullname row))) df"
proof -
  have d: "distinct (map fst (from_dict status_data))" by (simp add: from_dict_def)
  show ?thesis
    unfolding cohort_join_def join_distinct[OF d]
    by (simp add: reset_index_def set_index_def from_dict_def o_def DAList.lookup.rep_eq)
qed

text \<open>
  Claim C3. The cohort join is a left outer join on the post identifier: the combined
  output has exactly the rows of the Pass 1 table, each once and in order, each with the
  Status Record stored under its identifier, or with none (null final-state fields)
  when the mapping has no such key.
\<close>

theorem cohort_join_is_left_outer:
  "cohort_join df status_data
     = map (\<lambda>row. (row, DAList.lookup status_data (post_fullname row))) df \<and>
   map fst (cohort_join df status_data) = df \<and>
   length (cohort_join df status_data) = length df \<and>
   (\<forall>(row, st) \<in> set (cohort_join df status_data).
      row \<in> set df \<and> st = DAList.lookup status_data (post_fullname row))"
  unfolding cohort_join_eq by (auto simp: o_def)


theorem cohort_join_is_left_outer_witness:
  "map fst (cohort_join ex_df
      (fst (get_final_post_status ex_scenario_info ex_scenario_ids ex_env))) = ex_df \<and>
   map (post_fullname \<circ> fst) (cohort_join ex_df
      (fst (get_final_post_status ex_scenario_info ex_scenario_ids ex_env)))
     = [''t3_a'', ''t3_b'', ''t3_c''] \<and>
   map snd (cohort_join ex_df
      (fst (get_final_post_status ex_scenario_info ex_scenario_ids ex_env)))
     = [Some ex_status_a, None, Some ex_status_c] \<and>
   is_removed_inferred ex_status_c \<and> \<not> is_removed_inferred ex_status_a"
  using cohort_join_is_left_outer[of ex_df
      "fst (get_final_post_status ex_scenario_info ex_scenario_ids ex_env)"]
  unfolding scenario_status
  by (simp add: ex_df_def ex_row_def ex_status_a_def ex_status_c_def)
end
